theory Spec2Isabelle
  imports Complex_Main "HOL-Library.While_Combinator" "HOL-Library.Char_ord"
    "HOL-Library.List_Lexorder"
begin

chapter \<open>QuantNet-Solver: game trees, strategies, expected values and the Newton solver\<close>

text \<open>
  The C++ sources compute with IEEE doubles; this development models a double as a
  \<^typ>\<open>real\<close>. Rounding and overflow are outside the model, and so is underflow except
  in the exponential of the softmax (\<open>exp_double\<close>), where it decides the sign of a
  probability. Where a rounding error is amplified (the finite-difference quotient of
  the Newton solver divides it by the step \<open>2h\<close>), the statements quantify over residual
  functions that are evaluated with an absolute error. Machine
  \<open>int\<close>s (pots, cards, counters) stay far below the word size in every tree the
  code builds and are modelled as \<^typ>\<open>int\<close> or \<^typ>\<open>nat\<close>. An exception thrown by
  the code is a value \<open>Inl e\<close> of a sum type.
\<close>

section \<open>Game types and the game tree (GameTypes.hpp, GameTree.hpp)\<close>

text \<open>\<open>Card\<close> and \<open>PlayerId\<close> are C++ \<open>int\<close>; \<open>InfoSetId\<close> is a \<open>std::string\<close>.\<close>

type_synonym Card = int
type_synonym PlayerId = int
type_synonym InfoSetId = string

definition PLAYER_0 :: PlayerId where "PLAYER_0 = 0"
definition PLAYER_1 :: PlayerId where "PLAYER_1 = 1"
definition CHANCE :: PlayerId where "CHANCE = - 1"

datatype Action = Check | Bet | Call | Fold | Raise

datatype NodeType = Chance | Player | Terminal

fun action_to_char :: "Action \<Rightarrow> char" where
  "action_to_char Check = CHR ''c''"
| "action_to_char Bet = CHR ''b''"
| "action_to_char Call = CHR ''k''"
| "action_to_char Fold = CHR ''f''"
| "action_to_char Raise = CHR ''r''"

text \<open>
  A \<open>ChildEdge\<close> owns its child node, and a \<open>GameNode\<close> owns its edges: the tree is a
  nested datatype. Every node carries every field of the C++ struct, whatever its type
  tag says.
\<close>

datatype 'n ChildEdge =
  ChildEdge (action: Action) (card: Card) (probability: real) (child: 'n)

datatype GameNode =
  GameNode (type: NodeType) (player: PlayerId) (info_set_id: InfoSetId)
    (legal_actions: "Action list") (children: "GameNode ChildEdge list")
    (payoff: real) (pot: int) (history: string)
    (p0_card: Card) (p1_card: Card) (public_card: Card)

text \<open>
  \<open>std::make_unique<GameNode>()\<close>: the member initialisers of the struct (type
  Terminal, player 0, payoff 0, pot 0, the three cards -1, the containers empty).
\<close>

definition new_node :: GameNode where
  "new_node = GameNode Terminal PLAYER_0 [] [] [] 0 0 [] (- 1) (- 1) (- 1)"

text \<open>Assignments to single fields of a node.\<close>

fun set_type :: "NodeType \<Rightarrow> GameNode \<Rightarrow> GameNode" where
  "set_type v (GameNode t pl i la ch pay po h c0 c1 pc) = GameNode v pl i la ch pay po h c0 c1 pc"

fun set_player :: "PlayerId \<Rightarrow> GameNode \<Rightarrow> GameNode" where
  "set_player v (GameNode t pl i la ch pay po h c0 c1 pc) = GameNode t v i la ch pay po h c0 c1 pc"

fun set_info_set_id :: "InfoSetId \<Rightarrow> GameNode \<Rightarrow> GameNode" where
  "set_info_set_id v (GameNode t pl i la ch pay po h c0 c1 pc) =
     GameNode t pl v la ch pay po h c0 c1 pc"

fun set_legal_actions :: "Action list \<Rightarrow> GameNode \<Rightarrow> GameNode" where
  "set_legal_actions v (GameNode t pl i la ch pay po h c0 c1 pc) =
     GameNode t pl i v ch pay po h c0 c1 pc"

fun set_children :: "GameNode ChildEdge list \<Rightarrow> GameNode \<Rightarrow> GameNode" where
  "set_children v (GameNode t pl i la ch pay po h c0 c1 pc) =
     GameNode t pl i la v pay po h c0 c1 pc"

fun set_payoff :: "real \<Rightarrow> GameNode \<Rightarrow> GameNode" where
  "set_payoff v (GameNode t pl i la ch pay po h c0 c1 pc) = GameNode t pl i la ch v po h c0 c1 pc"

fun set_pot :: "int \<Rightarrow> GameNode \<Rightarrow> GameNode" where
  "set_pot v (GameNode t pl i la ch pay po h c0 c1 pc) = GameNode t pl i la ch pay v h c0 c1 pc"

fun set_history :: "string \<Rightarrow> GameNode \<Rightarrow> GameNode" where
  "set_history v (GameNode t pl i la ch pay po h c0 c1 pc) =
     GameNode t pl i la ch pay po v c0 c1 pc"

fun set_cards :: "Card \<Rightarrow> Card \<Rightarrow> Card \<Rightarrow> GameNode \<Rightarrow> GameNode" where
  "set_cards a b c (GameNode t pl i la ch pay po h c0 c1 pc) =
     GameNode t pl i la ch pay po h a b c"

text \<open>
  \<open>traverse_tree\<close> calls the visitor on a node and then on the subtrees of its edges, in
  order: the list of visited nodes, in pre-order. (Every edge of a built tree owns a
  node, so the null test of the source never fires.)
\<close>

lemma size_child [termination_simp]:
  "edge \<in> set (children node) \<Longrightarrow> size (child edge) < size node"
proof -
  have "edge \<in> set es \<Longrightarrow> size (child edge) < Suc (size_list (size_ChildEdge size) es)" for es
    by (induction es) (auto, cases edge, simp)
  then show "edge \<in> set (children node) \<Longrightarrow> size (child edge) < size node"
    by (cases node) fastforce
qed

fun traverse_tree :: "GameNode \<Rightarrow> GameNode list" where
  "traverse_tree node = node # concat (map (\<lambda>edge. traverse_tree (child edge)) (children node))"

declare traverse_tree.simps [simp del]


text \<open>\<open>std::to_string\<close> on an \<open>int\<close>: the decimal digits, with a sign.\<close>

definition digit_char :: "nat \<Rightarrow> char" where
  "digit_char d = ''0123456789'' ! d"

fun digits :: "nat \<Rightarrow> string" where
  "digits n = (if n < 10 then [digit_char n]
               else digits (n div 10) @ [digit_char (n mod 10)])"

declare digits.simps [simp del]


definition to_string :: "int \<Rightarrow> string" where
  "to_string i = (if i < 0 then CHR ''-'' # digits (nat (- i)) else digits (nat i))"

section \<open>Kuhn poker (KuhnPoker.cpp)\<close>

definition compare_cards :: "Card \<Rightarrow> Card \<Rightarrow> int" where
  "compare_cards c1 c2 = (if c1 > c2 then 1 else if c1 < c2 then - 1 else 0)"

definition card_name :: "Card \<Rightarrow> string" where
  "card_name c = (if c = 0 then ''J'' else if c = 1 then ''Q'' else if c = 2 then ''K'' else ''?'')"

definition make_info_set_id :: "PlayerId \<Rightarrow> Card \<Rightarrow> string \<Rightarrow> InfoSetId" where
  "make_info_set_id pl c hist =
     ''P'' @ to_string pl @ '':'' @ card_name c @ '':'' @ hist"

definition make_showdown :: "GameNode \<Rightarrow> Card \<Rightarrow> Card \<Rightarrow> int \<Rightarrow> GameNode" where
  "make_showdown node p0c p1c potv =
     (let node = set_pot potv (set_player (- 1) (set_type Terminal node));
          cmp = compare_cards p0c p1c
      in if cmp > 0 then set_payoff (real_of_int potv / 2) node
         else if cmp < 0 then set_payoff (- real_of_int potv / 2) node
         else set_payoff 0 node)"

definition make_fold_terminal :: "GameNode \<Rightarrow> PlayerId \<Rightarrow> int \<Rightarrow> GameNode" where
  "make_fold_terminal node folder potv =
     (let node = set_pot potv (set_player (- 1) (set_type Terminal node))
      in if folder = PLAYER_0 then set_payoff (- 1) node else set_payoff 1 node)"

text \<open>
  A player node as \<open>build_tree\<close> and \<open>build_subtree\<close> fill it in before they recurse:
  type, player, pot, legal actions and information set id.
\<close>

fun as_player_node ::
  "GameNode \<Rightarrow> PlayerId \<Rightarrow> int \<Rightarrow> Action list \<Rightarrow> InfoSetId \<Rightarrow> GameNode" where
  "as_player_node (GameNode t pl i la ch pay po h c0 c1 pc) pl' po' la' iid =
     GameNode Player pl' iid la' ch pay po' h c0 c1 pc"

lemma legal_actions_as_player_node [simp]:
  "legal_actions (as_player_node node pl po la iid) = la"
  by (cases node) simp

text \<open>
  \<open>build_subtree\<close> adds one edge per legal action of an existing player node. The
  recursion of the source ends because a check leads to a node that can only check or
  bet, a bet to a node that can only call or fold, and both of those to terminals; the
  measure counts these stages. The set \<open>info_set_ids_\<close> that the source fills on the way
  is never read, and is left out.
\<close>

function build_subtree ::
  "GameNode \<Rightarrow> PlayerId \<Rightarrow> string \<Rightarrow> Card \<Rightarrow> Card \<Rightarrow> int \<Rightarrow> int \<Rightarrow> int \<Rightarrow> GameNode" where
  "build_subtree node to_act hist p0c p1c potv p0_bet p1_bet =
     set_children (children node @ map (\<lambda>action.
       (let new_hist = hist @ [action_to_char action];
            child = set_history new_hist (set_cards p0c p1c (- 1) new_node)
        in ChildEdge action (- 1) 1
          (if to_act = PLAYER_0 then
             (if action = Check then
                build_subtree
                  (as_player_node child PLAYER_1 potv [Check, Bet]
                     (make_info_set_id PLAYER_1 p1c new_hist))
                  PLAYER_1 new_hist p0c p1c potv p0_bet p1_bet
              else if action = Bet then
                build_subtree
                  (as_player_node child PLAYER_1 (potv + 1) [Call, Fold]
                     (make_info_set_id PLAYER_1 p1c new_hist))
                  PLAYER_1 new_hist p0c p1c (potv + 1) (p0_bet + 1) p1_bet
              else if action = Call then
                make_showdown (set_pot (potv + 1) child) p0c p1c (potv + 1)
              else if action = Fold then
                make_fold_terminal child PLAYER_0 potv
              else child)
           else
             (if action = Check then
                make_showdown (set_pot potv child) p0c p1c potv
              else if action = Bet then
                build_subtree
                  (as_player_node child PLAYER_0 (potv + 1) [Call, Fold]
                     (make_info_set_id PLAYER_0 p0c new_hist))
                  PLAYER_0 new_hist p0c p1c (potv + 1) p0_bet (p1_bet + 1)
              else if action = Call then
                make_showdown (set_pot (potv + 1) child) p0c p1c (potv + 1)
              else if action = Fold then
                make_fold_terminal child PLAYER_1 potv
              else child))))
       (legal_actions node)) node"
  by pat_completeness auto
termination
  by (relation "measure (\<lambda>(node, to_act, hist, p0c, p1c, potv, p0_bet, p1_bet).
        if to_act = PLAYER_0
        then (if Check \<in> set (legal_actions node) then 2
              else if Bet \<in> set (legal_actions node) then 1 else 0)
        else (if Bet \<in> set (legal_actions node) then 1 else 0))")
     (auto simp: PLAYER_0_def PLAYER_1_def)

declare build_subtree.simps [simp del]


text \<open>
  \<open>build_tree\<close>: the root chance node and one edge per ordered deal of two distinct
  cards, each with probability 1/6 and a first decision node of player 0.
\<close>

definition deal_node :: "Card \<Rightarrow> Card \<Rightarrow> GameNode ChildEdge" where
  "deal_node p0c p1c =
     (let child = set_history [] (set_cards p0c p1c (- 1)
                    (as_player_node new_node PLAYER_0 2 [Check, Bet]
                       (make_info_set_id PLAYER_0 p0c [])))
      in ChildEdge Check (p0c * 10 + p1c) (1 / 6)
           (build_subtree child PLAYER_0 [] p0c p1c 2 0 0))"

definition build_tree :: GameNode where
  "build_tree =
     (let root = set_history [] (set_pot 2 (set_player CHANCE (set_type Chance new_node)))
      in set_children
           (concat (map (\<lambda>p0c. concat (map (\<lambda>p1c.
              if p0c = p1c then [] else [deal_node p0c p1c]) [0, 1, 2])) [0, 1, 2]))
           root)"

text \<open>
  \<open>get_info_sets\<close> walks the tree in pre-order and enters each player node's
  information set into a \<open>std::map\<close> unless its id is already there; the result lists
  the map's values in key order. The map is an association list kept sorted by key.
\<close>

record InfoSet =
  is_id :: InfoSetId
  is_player :: PlayerId
  is_legal_actions :: "Action list"

fun map_find :: "'k \<Rightarrow> ('k \<times> 'v) list \<Rightarrow> 'v option" where
  "map_find k [] = None"
| "map_find k ((k', v) # m) = (if k = k' then Some v else map_find k m)"

fun map_insert :: "'k::linorder \<Rightarrow> 'v \<Rightarrow> ('k \<times> 'v) list \<Rightarrow> ('k \<times> 'v) list" where
  "map_insert k v [] = [(k, v)]"
| "map_insert k v ((k', v') # m) =
     (if k < k' then (k, v) # (k', v') # m
      else if k = k' then (k, v) # m
      else (k', v') # map_insert k v m)"

definition visit_info_set :: "(InfoSetId \<times> InfoSet) list \<Rightarrow> GameNode \<Rightarrow> (InfoSetId \<times> InfoSet) list" where
  "visit_info_set info_set_map node =
     (if type node = Player then
        (if map_find (info_set_id node) info_set_map = None
         then map_insert (info_set_id node)
                \<lparr>is_id = info_set_id node, is_player = player node,
                 is_legal_actions = legal_actions node\<rparr> info_set_map
         else info_set_map)
      else info_set_map)"

definition get_info_sets :: "GameNode \<Rightarrow> InfoSet list" where
  "get_info_sets root_node = map snd (foldl visit_info_set [] (traverse_tree root_node))"

text \<open>
  The terminal nodes of a tree in pre-order, and the edges that lead to them: each with
  the node the edge leaves, the edge's action and the terminal it owns.
\<close>

definition terminals :: "GameNode \<Rightarrow> GameNode list" where
  "terminals node = filter (\<lambda>n. type n = Terminal) (traverse_tree node)"

fun leaf_edges :: "GameNode \<Rightarrow> (GameNode \<times> Action \<times> GameNode) list" where
  "leaf_edges node = concat (map (\<lambda>edge.
      (if type (child edge) = Terminal then [(node, action edge, child edge)] else [])
      @ leaf_edges (child edge)) (children node))"

declare leaf_edges.simps [simp del]


text \<open>
  What C5 asks of the payoff of a terminal: after a fold, -1 when player 0 folded and +1
  when player 1 did; at a showdown, half the pot to the higher card.
\<close>

definition kuhn_payoff_ok :: "GameNode \<times> Action \<times> GameNode \<Rightarrow> bool" where
  "kuhn_payoff_ok = (\<lambda>(parent, a, t).
     payoff t =
       (if a = Fold then (if player parent = PLAYER_0 then - 1 else 1)
        else if p0_card t > p1_card t then real_of_int (pot t) / 2
        else - (real_of_int (pot t) / 2)))"

definition player_nodes :: "GameNode \<Rightarrow> GameNode list" where
  "player_nodes node = filter (\<lambda>n. type n = Player) (traverse_tree node)"

text \<open>
  The payoff \<open>make_showdown\<close> assigns, and the subtree below one deal written out: the
  builder is shown below to produce exactly this tree for every pair of cards.
\<close>

definition showdown_payoff :: "Card \<Rightarrow> Card \<Rightarrow> int \<Rightarrow> real" where
  "showdown_payoff p0c p1c potv =
     (if p0c > p1c then real_of_int potv / 2 else if p0c < p1c then - real_of_int potv / 2 else 0)"

definition kuhn_deal_tree :: "Card \<Rightarrow> Card \<Rightarrow> GameNode" where
  "kuhn_deal_tree p0c p1c =
     GameNode Player 0 (make_info_set_id 0 p0c []) [Check, Bet]
       [ChildEdge Check (- 1) 1
          (GameNode Player 1 (make_info_set_id 1 p1c ''c'') [Check, Bet]
             [ChildEdge Check (- 1) 1
                (GameNode Terminal (- 1) [] [] [] (showdown_payoff p0c p1c 2) 2 ''cc'' p0c p1c (- 1)),
              ChildEdge Bet (- 1) 1
                (GameNode Player 0 (make_info_set_id 0 p0c ''cb'') [Call, Fold]
                   [ChildEdge Call (- 1) 1
                      (GameNode Terminal (- 1) [] [] [] (showdown_payoff p0c p1c 4) 4 ''cbk'' p0c p1c (- 1)),
                    ChildEdge Fold (- 1) 1
                      (GameNode Terminal (- 1) [] [] [] (- 1) 3 ''cbf'' p0c p1c (- 1))]
                   0 3 ''cb'' p0c p1c (- 1))]
             0 2 ''c'' p0c p1c (- 1)),
        ChildEdge Bet (- 1) 1
          (GameNode Player 1 (make_info_set_id 1 p1c ''b'') [Call, Fold]
             [ChildEdge Call (- 1) 1
                (GameNode Terminal (- 1) [] [] [] (showdown_payoff p0c p1c 4) 4 ''bk'' p0c p1c (- 1)),
              ChildEdge Fold (- 1) 1
                (GameNode Terminal (- 1) [] [] [] 1 3 ''bf'' p0c p1c (- 1))]
             0 3 ''b'' p0c p1c (- 1))]
       0 2 [] p0c p1c (- 1)"

section \<open>Leduc poker (LeducPoker.hpp, LeducPoker.cpp)\<close>

text \<open>
  The Leduc functions that share a name with a Kuhn function carry the prefix
  \<open>leduc_\<close>. Integer division and remainder of C++ truncate towards zero.
\<close>

definition ANTE :: int where "ANTE = 1"
definition SMALL_BET :: int where "SMALL_BET = 2"
definition BIG_BET :: int where "BIG_BET = 4"
definition MAX_RAISES :: int where "MAX_RAISES = 2"
definition NUM_CARDS :: int where "NUM_CARDS = 6"

definition cpp_div :: "int \<Rightarrow> int \<Rightarrow> int" where
  "cpp_div a b = sgn a * sgn b * (\<bar>a\<bar> div \<bar>b\<bar>)"

definition cpp_mod :: "int \<Rightarrow> int \<Rightarrow> int" where
  "cpp_mod a b = sgn a * (\<bar>a\<bar> mod \<bar>b\<bar>)"

definition card_rank :: "Card \<Rightarrow> int" where
  "card_rank c = cpp_div c 2"

definition card_suit :: "Card \<Rightarrow> int" where
  "card_suit c = cpp_mod c 2"

definition leduc_card_name :: "Card \<Rightarrow> string" where
  "leduc_card_name c =
     (let rank = card_rank c; suit = card_suit c;
          r = (if rank = 0 then ''J'' else if rank = 1 then ''Q'' else if rank = 2 then ''K''
               else ''?'')
      in r @ (if suit = 0 then ''s'' else ''h''))"

definition compare_hands :: "Card \<Rightarrow> Card \<Rightarrow> Card \<Rightarrow> int" where
  "compare_hands p0c p1c pubc =
     (let p0_rank = card_rank p0c; p1_rank = card_rank p1c; pub_rank = card_rank pubc;
          p0_pair = (p0_rank = pub_rank); p1_pair = (p1_rank = pub_rank)
      in if p0_pair \<and> \<not> p1_pair then 1
         else if \<not> p0_pair \<and> p1_pair then - 1
         else if p0_rank > p1_rank then 1
         else if p0_rank < p1_rank then - 1
         else 0)"

definition rank_name :: "int \<Rightarrow> string \<Rightarrow> string" where
  "rank_name rank dflt =
     (if rank = 0 then ''J'' else if rank = 1 then ''Q'' else if rank = 2 then ''K'' else dflt)"

definition leduc_make_info_set_id ::
  "PlayerId \<Rightarrow> Card \<Rightarrow> Card \<Rightarrow> string \<Rightarrow> int \<Rightarrow> InfoSetId" where
  "leduc_make_info_set_id pl private_card pubc hist rnd =
     (let pub_str = (if pubc < 0 then ''-'' else leduc_card_name pubc);
          priv_str = rank_name (card_rank private_card) '''';
          pub_str = (if pubc \<ge> 0 then rank_name (card_rank pubc) pub_str else pub_str)
      in ''P'' @ to_string pl @ '':'' @ priv_str @ '':'' @ pub_str @ '':R'' @ to_string rnd
           @ '':'' @ hist)"

definition leduc_make_showdown :: "GameNode \<Rightarrow> Card \<Rightarrow> Card \<Rightarrow> Card \<Rightarrow> int \<Rightarrow> GameNode" where
  "leduc_make_showdown node p0c p1c pubc potv =
     (let node = set_pot potv (set_player (- 1) (set_type Terminal node));
          cmp = compare_hands p0c p1c pubc
      in if cmp > 0 then set_payoff (real_of_int potv / 2) node
         else if cmp < 0 then set_payoff (- real_of_int potv / 2) node
         else set_payoff 0 node)"

definition leduc_make_fold_terminal :: "GameNode \<Rightarrow> PlayerId \<Rightarrow> int \<Rightarrow> GameNode" where
  "leduc_make_fold_terminal node folder potv =
     (let node = set_pot potv (set_player (- 1) (set_type Terminal node))
      in if folder = PLAYER_0 then set_payoff (- real_of_int potv / 2) node
         else set_payoff (real_of_int potv / 2) node)"

text \<open>
  \<open>build_betting_round\<close> adds one edge per legal action of a player node, and
  \<open>continue_after_round1\<close> turns a node into the chance node that deals the public card
  and opens round 2 below each remaining card. The measure of the recursion: round 1
  comes before round 2; within a round a node that may check or bet comes before the
  nodes that answer a bet, and each raise uses up one of the raises left. (\<open>rnd\<close> is the parameter \<open>round\<close> of the source.)
\<close>

function build_betting_round ::
  "GameNode \<Rightarrow> PlayerId \<Rightarrow> string \<Rightarrow> Card \<Rightarrow> Card \<Rightarrow> Card \<Rightarrow> int \<Rightarrow> int \<Rightarrow> int \<Rightarrow> int \<Rightarrow> int
     \<Rightarrow> GameNode"
  and continue_after_round1 :: "GameNode \<Rightarrow> Card \<Rightarrow> Card \<Rightarrow> int \<Rightarrow> string \<Rightarrow> GameNode" where
  "build_betting_round node first_to_act hist p0c p1c pubc potv to_call raises_left rnd bet_size =
     set_children (children node @ map (\<lambda>action.
       (let child = set_cards p0c p1c pubc new_node;
            new_hist = hist @ [action_to_char action];
            child = set_history new_hist child;
            current = player node;
            opponent = (if current = PLAYER_0 then PLAYER_1 else PLAYER_0);
            opp_card = (if opponent = PLAYER_0 then p0c else p1c)
        in ChildEdge action (- 1) 1
          (if action = Fold then
             leduc_make_fold_terminal child current potv
           else if action = Check then
             (if to_call = 0 \<and> hist = [] then
                build_betting_round
                  (as_player_node child opponent potv [Check, Bet]
                     (leduc_make_info_set_id opponent opp_card pubc new_hist rnd))
                  first_to_act new_hist p0c p1c pubc potv 0 raises_left rnd bet_size
              else if to_call = 0 then
                (if rnd = 1 then continue_after_round1 child p0c p1c potv new_hist
                 else leduc_make_showdown child p0c p1c pubc potv)
              else child)
           else if action = Bet then
             (let new_pot = potv + bet_size
              in build_betting_round
                   (as_player_node child opponent new_pot
                      (if raises_left > 0 then [Fold, Call, Raise] else [Fold, Call])
                      (leduc_make_info_set_id opponent opp_card pubc new_hist rnd))
                   first_to_act new_hist p0c p1c pubc new_pot bet_size raises_left rnd bet_size)
           else if action = Call then
             (let new_pot = potv + to_call;
                  child = set_pot new_pot child
              in if rnd = 1 then continue_after_round1 child p0c p1c new_pot new_hist
                 else leduc_make_showdown child p0c p1c pubc new_pot)
           else if action = Raise then
             (let new_pot = potv + to_call + bet_size;
                  new_raises = raises_left - 1
              in build_betting_round
                   (as_player_node child opponent new_pot
                      (if new_raises > 0 then [Fold, Call, Raise] else [Fold, Call])
                      (leduc_make_info_set_id opponent opp_card pubc new_hist rnd))
                   first_to_act new_hist p0c p1c pubc new_pot bet_size new_raises rnd bet_size)
           else child)))
       (legal_actions node)) node"
| "continue_after_round1 node p0c p1c potv hist =
     (let node = set_pot potv (set_player CHANCE (set_type Chance node));
          cards_remaining = length (filter (\<lambda>c. c \<noteq> p0c \<and> c \<noteq> p1c) [0..NUM_CARDS - 1]);
          deal_prob = 1 / real cards_remaining
      in set_children (children node @ map (\<lambda>pub.
           (let child_hist = hist @ ''|'';
                child = set_history child_hist (set_cards p0c p1c pub
                          (as_player_node new_node PLAYER_0 potv [Check, Bet]
                             (leduc_make_info_set_id PLAYER_0 p0c pub child_hist 2)))
            in ChildEdge Check pub deal_prob
                 (build_betting_round child PLAYER_0 child_hist p0c p1c pub potv 0 MAX_RAISES 2 BIG_BET)))
           (filter (\<lambda>pub. \<not> (pub = p0c \<or> pub = p1c)) [0..NUM_CARDS - 1])) node)"
  by pat_completeness auto
termination
  by (relation "measures
       [\<lambda>x. case x of
               Inl (node, first_to_act, hist, p0c, p1c, pubc, potv, to_call, raises_left, rnd, bet_size)
                 \<Rightarrow> if rnd = 1 then 1 else 0
             | Inr _ \<Rightarrow> 0,
        \<lambda>x. case x of
               Inl (node, first_to_act, hist, p0c, p1c, pubc, potv, to_call, raises_left, rnd, bet_size)
                 \<Rightarrow> if Check \<in> set (legal_actions node) \<or> Bet \<in> set (legal_actions node)
                    then (if hist = [] then 2 else 1) else 0
             | Inr _ \<Rightarrow> 3,
        \<lambda>x. case x of
               Inl (node, first_to_act, hist, p0c, p1c, pubc, potv, to_call, raises_left, rnd, bet_size)
                 \<Rightarrow> if Raise \<in> set (legal_actions node) then 1 + nat (raises_left - 1) else 0
             | Inr _ \<Rightarrow> 0]")
     (auto simp: PLAYER_0_def PLAYER_1_def)

declare build_betting_round.simps [simp del] continue_after_round1.simps [simp del]

text \<open>
  \<open>LeducPoker::build_tree\<close>: the root chance node and one edge per ordered deal of two
  distinct cards of the six, each with probability 1/30.
\<close>

definition leduc_deal_node :: "Card \<Rightarrow> Card \<Rightarrow> GameNode ChildEdge" where
  "leduc_deal_node p0c p1c =
     (let child = set_history [] (set_cards p0c p1c (- 1)
                    (as_player_node new_node PLAYER_0 (2 * ANTE) [Check, Bet]
                       (leduc_make_info_set_id PLAYER_0 p0c (- 1) [] 1)))
      in ChildEdge Check (p0c * 10 + p1c) (1 / 30)
           (build_betting_round child PLAYER_0 [] p0c p1c (- 1) (2 * ANTE) 0 MAX_RAISES 1 SMALL_BET))"

definition leduc_build_tree :: GameNode where
  "leduc_build_tree =
     (let root = set_history [] (set_pot (2 * ANTE) (set_player CHANCE (set_type Chance new_node)))
      in set_children
           (concat (map (\<lambda>p0c. concat (map (\<lambda>p1c.
              if p0c = p1c then [] else [leduc_deal_node p0c p1c]) [0..NUM_CARDS - 1]))
              [0..NUM_CARDS - 1]))
           root)"

text \<open>Navigation in the tree (GameTree.hpp); \<open>None\<close> is the null pointer.\<close>

definition get_child :: "GameNode \<Rightarrow> Action \<Rightarrow> GameNode option" where
  "get_child node a = map_option child (find (\<lambda>edge. action edge = a) (children node))"

definition get_chance_child :: "GameNode \<Rightarrow> Card \<Rightarrow> GameNode option" where
  "get_chance_child node c = map_option child (find (\<lambda>edge. card edge = c) (children node))"

section \<open>Information set index and strategies (GameTypes.hpp, Strategy.hpp, Strategy.cpp)\<close>

text \<open>
  The exceptions of the code: the two \<open>std::runtime_error\<close>s of \<open>Strategy\<close> ("Unknown
  information set: id", "Action not legal at information set: id"), the one of the
  Newton solver for a system that is not square, and an out-of-range or empty-vector
  access to an Eigen vector, which Eigen answers with a failed assertion.
\<close>

datatype error =
  UnknownInfoSet InfoSetId
| ActionNotLegal InfoSetId
| NotSquare nat nat
| EigenAssert

text \<open>Reading coefficient \<open>i\<close> of an Eigen vector.\<close>

definition coeff :: "real list \<Rightarrow> nat \<Rightarrow> error + real" where
  "coeff v i = (if i < length v then Inr (v ! i) else Inl EigenAssert)"

text \<open>A loop that fills a vector from a fallible read, stopping at the first failure.\<close>

fun collect :: "(nat \<Rightarrow> error + 'a) \<Rightarrow> nat list \<Rightarrow> error + 'a list" where
  "collect f [] = Inr []"
| "collect f (i # js) =
     (case f i of
        Inl e \<Rightarrow> Inl e
      | Inr v \<Rightarrow> (case collect f js of Inl e \<Rightarrow> Inl e | Inr vs \<Rightarrow> Inr (v # vs)))"

record InfoSetIndex =
  m_info_sets :: "InfoSet list"
  m_id_to_idx :: "InfoSetId \<rightharpoonup> nat"
  m_flat_to_pair :: "(nat \<times> nat) list"
  m_pair_to_flat :: "InfoSetId \<times> Action \<rightharpoonup> nat"
  m_total_dim :: nat

definition empty_index :: InfoSetIndex where
  "empty_index = \<lparr>m_info_sets = [], m_id_to_idx = Map.empty, m_flat_to_pair = [],
                   m_pair_to_flat = Map.empty, m_total_dim = 0\<rparr>"

text \<open>
  \<open>InfoSetIndex::build\<close>: the outer loop over the information sets, the inner loop
  over the legal actions of one of them; \<open>m_total_dim\<close> (the member \<open>total_dim_\<close>; a trailing underscore is not a name here) holds the running \<open>flat_idx\<close>.
\<close>

definition build_action :: "nat \<Rightarrow> InfoSet \<Rightarrow> nat \<Rightarrow> InfoSetIndex \<Rightarrow> InfoSetIndex" where
  "build_action i is a index =
     index\<lparr>m_flat_to_pair := m_flat_to_pair index @ [(i, a)],
           m_pair_to_flat := (m_pair_to_flat index)((is_id is, is_legal_actions is ! a) \<mapsto> m_total_dim index),
           m_total_dim := m_total_dim index + 1\<rparr>"

definition build_info_set :: "InfoSet list \<Rightarrow> nat \<Rightarrow> InfoSetIndex \<Rightarrow> InfoSetIndex" where
  "build_info_set info_sets i index =
     (let is = info_sets ! i;
          index = index\<lparr>m_info_sets := m_info_sets index @ [is],
                        m_id_to_idx := (m_id_to_idx index)(is_id is \<mapsto> i)\<rparr>
      in fold (build_action i is) [0..<length (is_legal_actions is)] index)"

definition build :: "InfoSet list \<Rightarrow> InfoSetIndex" where
  "build info_sets = fold (build_info_set info_sets) [0..<length info_sets] empty_index"

definition total_dim :: "InfoSetIndex \<Rightarrow> nat" where
  "total_dim index = m_total_dim index"

definition num_info_sets :: "InfoSetIndex \<Rightarrow> nat" where
  "num_info_sets index = length (m_info_sets index)"

definition info_set :: "InfoSetIndex \<Rightarrow> nat \<Rightarrow> InfoSet" where
  "info_set index idx = m_info_sets index ! idx"

text \<open>\<open>info_set_idx\<close> answers -1 for an id that is not in the index.\<close>

definition info_set_idx :: "InfoSetIndex \<Rightarrow> InfoSetId \<Rightarrow> int" where
  "info_set_idx index iid = (case m_id_to_idx index iid of Some i \<Rightarrow> int i | None \<Rightarrow> - 1)"

definition info_set_start :: "InfoSetIndex \<Rightarrow> nat \<Rightarrow> nat" where
  "info_set_start index is_idx =
     fold (\<lambda>i start. start + length (is_legal_actions (m_info_sets index ! i))) [0..<is_idx] 0"

text \<open>
  \<open>std::exp\<close> on doubles underflows: the smallest positive double is \<open>2^-1074\<close>, and an
  exponential of at most half of it rounds to 0. \<open>exp_double\<close> keeps this one effect of
  the double format and is the real exponential otherwise.
\<close>

definition exp_double :: "real \<Rightarrow> real" where
  "exp_double x = (if exp x \<le> 1 / 2 ^ 1075 then 0 else exp x)"

text \<open>
  \<open>stable_softmax\<close>: subtract the largest logit, exponentiate, divide by the sum.
  \<open>maxCoeff\<close> of an empty vector fails Eigen's assertion. The sum is at least 1 (the
  largest logit gives \<open>exp 0\<close>) and the quotients are taken exactly.
\<close>

definition stable_softmax :: "real list \<Rightarrow> error + real list" where
  "stable_softmax logits =
     (if logits = [] then Inl EigenAssert
      else let max_logit = Max (set logits);
               shifted = map (\<lambda>x. x - max_logit) logits;
               exp_vals = map exp_double shifted
           in Inr (map (\<lambda>e. e / sum_list exp_vals) exp_vals))"

record Strategy =
  m_logits :: "InfoSetId \<rightharpoonup> real list"
  m_actions :: "InfoSetId \<rightharpoonup> Action list"

definition empty_strategy :: Strategy where
  "empty_strategy = \<lparr>m_logits = Map.empty, m_actions = Map.empty\<rparr>"

text \<open>
  \<open>Strategy::from_logits\<close>: for each information set of the index, copy its block
  \<open>w(start + a)\<close> out of the flat vector and store it, with the legal actions, under
  the set's id.
\<close>

definition from_logits_step ::
  "real list \<Rightarrow> InfoSetIndex \<Rightarrow> nat \<Rightarrow> error + Strategy \<Rightarrow> error + Strategy" where
  "from_logits_step w index i acc =
     (case acc of
        Inl e \<Rightarrow> Inl e
      | Inr s \<Rightarrow>
          (let is = info_set index i;
               num_actions = length (is_legal_actions is);
               start = info_set_start index i
           in case collect (\<lambda>a. coeff w (start + a)) [0..<num_actions] of
                Inl e \<Rightarrow> Inl e
              | Inr is_logits \<Rightarrow>
                  Inr (s\<lparr>m_logits := (m_logits s)(is_id is \<mapsto> is_logits),
                         m_actions := (m_actions s)(is_id is \<mapsto> is_legal_actions is)\<rparr>)))"

definition from_logits :: "real list \<Rightarrow> InfoSetIndex \<Rightarrow> error + Strategy" where
  "from_logits w index =
     fold (from_logits_step w index) [0..<num_info_sets index] (Inr empty_strategy)"

text \<open>
  The three queries are \<open>const\<close> member functions: they read the strategy and return a
  value or throw, and have no other effect.
\<close>

definition probs :: "Strategy \<Rightarrow> InfoSetId \<Rightarrow> error + real list" where
  "probs s iid =
     (case m_logits s iid of
        None \<Rightarrow> Inl (UnknownInfoSet iid)
      | Some l \<Rightarrow> stable_softmax l)"

fun index_of :: "'a \<Rightarrow> 'a list \<Rightarrow> nat option" where
  "index_of x [] = None"
| "index_of x (y # ys) = (if y = x then Some 0 else map_option Suc (index_of x ys))"

definition prob :: "Strategy \<Rightarrow> InfoSetId \<Rightarrow> Action \<Rightarrow> error + real" where
  "prob s iid a =
     (case (m_logits s iid, m_actions s iid) of
        (Some l, Some acts) \<Rightarrow>
          (case index_of a acts of
             Some i \<Rightarrow> (case stable_softmax l of Inl e \<Rightarrow> Inl e | Inr p \<Rightarrow> coeff p i)
           | None \<Rightarrow> Inl (ActionNotLegal iid))
      | _ \<Rightarrow> Inl (UnknownInfoSet iid))"

definition logits :: "Strategy \<Rightarrow> InfoSetId \<Rightarrow> error + real list" where
  "logits s iid =
     (case m_logits s iid of
        None \<Rightarrow> Inl (UnknownInfoSet iid)
      | Some l \<Rightarrow> Inr l)"

definition set_logits :: "Strategy \<Rightarrow> InfoSetId \<Rightarrow> real list \<Rightarrow> Strategy" where
  "set_logits s iid new_logits = s\<lparr>m_logits := (m_logits s)(iid \<mapsto> new_logits)\<rparr>"

definition has_info_set :: "Strategy \<Rightarrow> InfoSetId \<Rightarrow> bool" where
  "has_info_set s iid = (m_logits s iid \<noteq> None)"

text \<open>
  The sizes of the blocks of the flat layout, and the block of information set \<open>i\<close> in
  a flat vector: what \<open>from_logits\<close> stores for it.
\<close>

definition block_sizes :: "InfoSet list \<Rightarrow> nat list" where
  "block_sizes info_sets = map (\<lambda>is. length (is_legal_actions is)) info_sets"

definition block :: "real list \<Rightarrow> InfoSetIndex \<Rightarrow> nat \<Rightarrow> real list" where
  "block w index i =
     map (\<lambda>a. w ! (info_set_start index i + a))
       [0..<length (is_legal_actions (info_set index i))]"

section \<open>Expected value and best response (ExpectedValue.cpp)\<close>

text \<open>
  A loop \<open>ev = 0.0; for (...) ev += call\<close> whose calls may throw: the results are added
  from the left, and the first failure ends the loop.
\<close>

definition add_result :: "error + real \<Rightarrow> error + real \<Rightarrow> error + real" where
  "add_result r acc =
     (case acc of
        Inl e \<Rightarrow> Inl e
      | Inr ev \<Rightarrow> (case r of Inl e \<Rightarrow> Inl e | Inr v \<Rightarrow> Inr (ev + v)))"

definition sum_results :: "(error + real) list \<Rightarrow> error + real" where
  "sum_results rs = fold add_result rs (Inr 0)"

text \<open>
  The override of \<open>ev_recursive\<close>: a zero vector as long as the legal-action list, with
  a 1 at the first position that holds the override action, if there is one.
\<close>

definition override_probs :: "Action list \<Rightarrow> Action \<Rightarrow> real list" where
  "override_probs legal a =
     (case index_of a legal of
        Some i \<Rightarrow> (replicate (length legal) 0)[i := 1]
      | None \<Rightarrow> replicate (length legal) 0)"

function ev_recursive ::
  "GameNode \<Rightarrow> Strategy \<Rightarrow> real \<Rightarrow> real \<Rightarrow> real \<Rightarrow> (InfoSetId \<times> Action) option \<Rightarrow> error + real"
  where
  "ev_recursive node sigma reach_p0 reach_p1 reach_chance override_opt =
     (case type node of
        Terminal \<Rightarrow> Inr (reach_p0 * reach_p1 * reach_chance * payoff node)
      | Chance \<Rightarrow>
          sum_results (map (\<lambda>edge.
            ev_recursive (child edge) sigma reach_p0 reach_p1
              (reach_chance * probability edge) override_opt) (children node))
      | Player \<Rightarrow>
          (let action_probs =
                 (case override_opt of
                    None \<Rightarrow> probs sigma (info_set_id node)
                  | Some (override_id, override_action) \<Rightarrow>
                      if override_id = info_set_id node
                      then Inr (override_probs (legal_actions node) override_action)
                      else probs sigma (info_set_id node))
           in case action_probs of
                Inl e \<Rightarrow> Inl e
              | Inr ap \<Rightarrow>
                  sum_results (map (\<lambda>i.
                    case coeff ap i of
                      Inl e \<Rightarrow> Inl e
                    | Inr action_prob \<Rightarrow>
                        ev_recursive (child (children node ! i)) sigma
                          (if player node = PLAYER_0 then reach_p0 * action_prob else reach_p0)
                          (if player node = PLAYER_0 then reach_p1 else reach_p1 * action_prob)
                          reach_chance override_opt)
                    [0..<length (children node)])))"
  by pat_completeness auto
termination
  by (relation "measure (\<lambda>(node, sigma, r0, r1, rc, ov). size node)") (auto simp: size_child)

declare ev_recursive.simps [simp del]


text \<open>
  \<open>br_recursive\<close> starts its maximum at minus infinity, which the sums above it then
  carry: its values are the reals and minus infinity.
\<close>

datatype xreal = NegInf | Fin (fin: real)

fun xadd :: "xreal \<Rightarrow> xreal \<Rightarrow> xreal" where
  "xadd (Fin a) (Fin b) = Fin (a + b)"
| "xadd _ _ = NegInf"

text \<open>\<open>std::max(a, b)\<close> is \<open>b\<close> when \<open>a < b\<close> and \<open>a\<close> otherwise.\<close>

fun xmax :: "xreal \<Rightarrow> xreal \<Rightarrow> xreal" where
  "xmax NegInf b = b"
| "xmax (Fin a) NegInf = Fin a"
| "xmax (Fin a) (Fin b) = (if a < b then Fin b else Fin a)"

definition xadd_result :: "error + xreal \<Rightarrow> error + xreal \<Rightarrow> error + xreal" where
  "xadd_result r acc =
     (case acc of
        Inl e \<Rightarrow> Inl e
      | Inr ev \<Rightarrow> (case r of Inl e \<Rightarrow> Inl e | Inr v \<Rightarrow> Inr (xadd ev v)))"

definition xmax_result :: "error + xreal \<Rightarrow> error + xreal \<Rightarrow> error + xreal" where
  "xmax_result r acc =
     (case acc of
        Inl e \<Rightarrow> Inl e
      | Inr best_ev \<Rightarrow> (case r of Inl e \<Rightarrow> Inl e | Inr ev \<Rightarrow> Inr (xmax best_ev ev)))"

function br_recursive ::
  "GameNode \<Rightarrow> Strategy \<Rightarrow> PlayerId \<Rightarrow> real \<Rightarrow> real \<Rightarrow> error + xreal" where
  "br_recursive node sigma br_player reach_opponent reach_chance =
     (case type node of
        Terminal \<Rightarrow>
          Inr (Fin (reach_opponent * reach_chance *
                    (if br_player = PLAYER_1 then - payoff node else payoff node)))
      | Chance \<Rightarrow>
          fold xadd_result (map (\<lambda>edge.
            br_recursive (child edge) sigma br_player reach_opponent
              (reach_chance * probability edge)) (children node)) (Inr (Fin 0))
      | Player \<Rightarrow>
          (if player node = br_player then
             fold xmax_result (map (\<lambda>edge.
               br_recursive (child edge) sigma br_player reach_opponent reach_chance)
               (children node)) (Inr NegInf)
           else
             (case probs sigma (info_set_id node) of
                Inl e \<Rightarrow> Inl e
              | Inr ps \<Rightarrow>
                  fold xadd_result (map (\<lambda>i.
                    case coeff ps i of
                      Inl e \<Rightarrow> Inl e
                    | Inr p \<Rightarrow>
                        br_recursive (child (children node ! i)) sigma br_player
                          (reach_opponent * p) reach_chance)
                    [0..<length (children node)]) (Inr (Fin 0)))))"
  by pat_completeness auto
termination
  by (relation "measure (\<lambda>(node, sigma, p, ro, rc). size node)") (auto simp: size_child)

declare br_recursive.simps [simp del]


definition compute_ev :: "GameNode \<Rightarrow> Strategy \<Rightarrow> error + real" where
  "compute_ev root_node sigma = ev_recursive root_node sigma 1 1 1 None"

definition compute_ev_with_override ::
  "GameNode \<Rightarrow> Strategy \<Rightarrow> InfoSetId \<Rightarrow> Action \<Rightarrow> error + real" where
  "compute_ev_with_override root_node sigma override_info_set override_action =
     ev_recursive root_node sigma 1 1 1 (Some (override_info_set, override_action))"

definition best_response_value :: "GameNode \<Rightarrow> Strategy \<Rightarrow> PlayerId \<Rightarrow> error + xreal" where
  "best_response_value root_node sigma br_player = br_recursive root_node sigma br_player 1 1"

text \<open>
  A strategy fits a tree when every player node of the tree belongs to player 0 or 1,
  has at least one edge, and has a logit vector in the strategy with one entry per
  edge. The trees the games build and the strategies made by \<open>from_logits\<close> over their
  index are of this kind.
\<close>

definition fits_node :: "Strategy \<Rightarrow> GameNode \<Rightarrow> bool" where
  "fits_node sigma n =
     ((player n = PLAYER_0 \<or> player n = PLAYER_1) \<and> children n \<noteq> [] \<and>
      (case m_logits sigma (info_set_id n) of
         None \<Rightarrow> False
       | Some l \<Rightarrow> length l = length (children n)))"

definition fits :: "Strategy \<Rightarrow> GameNode \<Rightarrow> bool" where
  "fits sigma root_node = list_all (fits_node sigma) (player_nodes root_node)"

text \<open>
  The two player reaches of \<open>ev_recursive\<close> and the payoff to player 0, seen from a
  player \<open>p\<close>: \<open>own\<close> is the reach of \<open>p\<close>, \<open>opp\<close> the reach of the other player, and
  the value to player 1 is the negated value to player 0.
\<close>

definition reach_p0_of :: "PlayerId \<Rightarrow> real \<Rightarrow> real \<Rightarrow> real" where
  "reach_p0_of p own opp = (if p = PLAYER_0 then own else opp)"

definition reach_p1_of :: "PlayerId \<Rightarrow> real \<Rightarrow> real \<Rightarrow> real" where
  "reach_p1_of p own opp = (if p = PLAYER_0 then opp else own)"

definition value_for :: "PlayerId \<Rightarrow> real \<Rightarrow> real" where
  "value_for p v = (if p = PLAYER_0 then v else - v)"

text \<open>
  The reference for expected values, by backward induction over the reals: a terminal
  node is worth its payoff to player 0, a chance node the sum of its children's values
  weighted by the edge probabilities, and a player node the sum of its children's values
  weighted by the probabilities \<open>beh node\<close> that the behaviour \<open>beh\<close> gives to its actions.
\<close>

function node_value :: "(GameNode \<Rightarrow> real list) \<Rightarrow> GameNode \<Rightarrow> real" where
  "node_value beh node =
     (case type node of
        Terminal \<Rightarrow> payoff node
      | Chance \<Rightarrow> (\<Sum>edge\<leftarrow>children node. probability edge * node_value beh (child edge))
      | Player \<Rightarrow>
          (\<Sum>i\<leftarrow>[0..<length (children node)].
             beh node ! i * node_value beh (child (children node ! i))))"
  by pat_completeness auto
termination
  by (relation "measure (\<lambda>(beh, node). size node)") (auto simp: size_child)

declare node_value.simps [simp del]

text \<open>
  The behaviour in which every node of information set \<open>I\<close> gives probability 0 to each
  of its actions, and every other node plays the probabilities of the strategy.
\<close>

definition pruned_behaviour :: "InfoSetId \<Rightarrow> Strategy \<Rightarrow> GameNode \<Rightarrow> real list" where
  "pruned_behaviour I sigma node =
     (if info_set_id node = I then replicate (length (children node)) 0
      else case probs sigma (info_set_id node) of Inl e \<Rightarrow> [] | Inr ps \<Rightarrow> ps)"

text \<open>
  The override action is not legal at information set \<open>I\<close>: no player node of the tree
  with that id lists it, and each such node has one edge per legal action, as every
  player node of a built tree has.
\<close>

definition override_illegal :: "InfoSetId \<Rightarrow> Action \<Rightarrow> GameNode \<Rightarrow> bool" where
  "override_illegal I a root_node =
     list_all (\<lambda>n. info_set_id n = I \<longrightarrow>
                 a \<notin> set (legal_actions n) \<and> length (legal_actions n) = length (children n))
       (player_nodes root_node)"

section \<open>Continuation schedule (main.cpp)\<close>

text \<open>
  \<open>make_beta_schedule\<close> pushes 0.01, then runs \<open>while (beta < target_beta)\<close> from
  \<open>beta = 0.05\<close>, pushing \<open>beta\<close> and doubling it, and finally pushes the target. The
  loop is a \<open>while_option\<close> on the pair (schedule, beta): \<open>None\<close> would be a loop
  that never ends.
\<close>

definition make_beta_schedule :: "real \<Rightarrow> real list option" where
  "make_beta_schedule target_beta =
     (case while_option (\<lambda>(schedule, beta). beta < target_beta)
                        (\<lambda>(schedule, beta). (schedule @ [beta], beta * 2))
                        ([1 / 100], 5 / 100) of
        None \<Rightarrow> None
      | Some (schedule, beta) \<Rightarrow> Some (schedule @ [target_beta]))"

text \<open>The two shapes the schedule is asked to have.\<close>

definition strictly_increasing :: "real list \<Rightarrow> bool" where
  "strictly_increasing s = sorted_wrt (<) s"

definition at_least_doubling :: "real list \<Rightarrow> bool" where
  "at_least_doubling s = successively (\<lambda>x y. 2 * x \<le> y) s"

text \<open>The loop invariant of the schedule loop, for a target above 0.01.\<close>

definition schedule_inv :: "real \<Rightarrow> real list \<times> real \<Rightarrow> bool" where
  "schedule_inv target_beta = (\<lambda>(schedule, beta).
     schedule \<noteq> [] \<and> hd schedule = 1 / 100 \<and> strictly_increasing schedule \<and>
     at_least_doubling schedule \<and> 0 < last schedule \<and> 2 * last schedule \<le> beta \<and>
     last schedule < target_beta)"

section \<open>The Newton solver (FiniteDiff.hpp, LineSearch.hpp, NewtonSolver.hpp, Diagnostics.hpp)\<close>

text \<open>
  An \<open>Eigen::VectorXd\<close> is a list of reals, an \<open>Eigen::MatrixXd\<close> the list of its
  columns. The operations below are Eigen's on operands of matching sizes, which is
  what the solver gives them when the residual returns as many coefficients as it is
  given (the solver checks this once, at the start).
\<close>

type_synonym vec = "real list"
type_synonym mat = "real list list"

definition vadd :: "vec \<Rightarrow> vec \<Rightarrow> vec" where
  "vadd x y = map2 (+) x y"

definition vsub :: "vec \<Rightarrow> vec \<Rightarrow> vec" where
  "vsub x y = map2 (-) x y"

definition smul :: "real \<Rightarrow> vec \<Rightarrow> vec" where
  "smul a x = map (\<lambda>v. a * v) x"

definition dot :: "vec \<Rightarrow> vec \<Rightarrow> real" where
  "dot x y = (\<Sum>i\<leftarrow>[0..<length x]. x ! i * y ! i)"

definition squaredNorm :: "vec \<Rightarrow> real" where
  "squaredNorm x = dot x x"

definition norm2 :: "vec \<Rightarrow> real" where
  "norm2 x = sqrt (squaredNorm x)"

text \<open>\<open>J * d\<close> for a matrix with \<open>m\<close> rows, and \<open>J.transpose() * v\<close>.\<close>

definition mat_vec :: "nat \<Rightarrow> mat \<Rightarrow> vec \<Rightarrow> vec" where
  "mat_vec m J d = map (\<lambda>i. \<Sum>j\<leftarrow>[0..<length J]. J ! j ! i * d ! j) [0..<m]"

definition mat_tvec :: "mat \<Rightarrow> vec \<Rightarrow> vec" where
  "mat_tvec J v = map (\<lambda>c. dot c v) J"

definition mat_tmat :: "mat \<Rightarrow> mat" where
  "mat_tmat J = map (\<lambda>c. mat_tvec J c) J"

definition unit_vec :: "nat \<Rightarrow> nat \<Rightarrow> vec" where
  "unit_vec n j = (replicate n 0)[j := 1]"

definition identity :: "nat \<Rightarrow> mat" where
  "identity n = map (unit_vec n) [0..<n]"

definition madd :: "mat \<Rightarrow> mat \<Rightarrow> mat" where
  "madd A B = map2 vadd A B"

definition msmul :: "real \<Rightarrow> mat \<Rightarrow> mat" where
  "msmul a A = map (smul a) A"

text \<open>
  The two Eigen decompositions the solver calls are parameters: \<open>full_piv_lu A b\<close> is
  \<open>FullPivLU\<close> of \<open>A\<close>, \<open>None\<close> when \<open>isInvertible()\<close> is false and the result of
  \<open>solve(b)\<close> otherwise; \<open>jacobi_cond J\<close> is the ratio of the largest to the smallest
  singular value of \<open>JacobiSVD\<close>.
\<close>

record linalg =
  full_piv_lu :: "mat \<Rightarrow> vec \<Rightarrow> vec option"
  jacobi_cond :: "mat \<Rightarrow> real"

subsection \<open>Finite differences\<close>

text \<open>
  \<open>compute_jacobian\<close>: column \<open>j\<close> is the difference quotient of the residual along
  coordinate \<open>j\<close>. The quotient itself is exact here; it divides the error of the two
  residual values by \<open>2h\<close> (or \<open>h\<close>), so a residual function that is evaluated with an
  error of \<open>delta\<close> gives Jacobian entries that are off by up to \<open>delta / h\<close>.
\<close>

definition compute_jacobian :: "(vec \<Rightarrow> vec) \<Rightarrow> vec \<Rightarrow> real \<Rightarrow> bool \<Rightarrow> mat" where
  "compute_jacobian F x h central =
     (let n = length x; f0 = F x
      in if central then
           map (\<lambda>j. let x_plus = x[j := x ! j + h];
                         x_minus = x[j := x ! j - h];
                         f_plus = F x_plus;
                         f_minus = F x_minus
                     in smul (1 / (2 * h)) (vsub f_plus f_minus)) [0..<n]
         else
           map (\<lambda>j. let x_plus = x[j := x ! j + h];
                         f_plus = F x_plus
                     in smul (1 / h) (vsub f_plus f0)) [0..<n])"

subsection \<open>Line search\<close>

record LineSearchResult =
  ls_alpha :: real
  ls_merit :: real
  ls_evaluations :: nat
  ls_success :: bool

definition merit_function :: "(vec \<Rightarrow> vec) \<Rightarrow> vec \<Rightarrow> real" where
  "merit_function F x = 0.5 * squaredNorm (F x)"

text \<open>
  The backtracking loop of \<open>armijo_backtrack\<close>, by the number of iterations left; it
  carries \<open>alpha\<close> and the evaluation count.
\<close>

fun backtrack ::
  "(vec \<Rightarrow> vec) \<Rightarrow> vec \<Rightarrow> vec \<Rightarrow> real \<Rightarrow> real \<Rightarrow> real \<Rightarrow> real \<Rightarrow> nat \<Rightarrow> real \<Rightarrow> nat
     \<Rightarrow> LineSearchResult" where
  "backtrack F x d c rho phi0 dphi0 0 alpha evals =
     \<lparr>ls_alpha = alpha, ls_merit = merit_function F (vadd x (smul alpha d)),
      ls_evaluations = evals + 1, ls_success = False\<rparr>"
| "backtrack F x d c rho phi0 dphi0 (Suc k) alpha evals =
     (let x_new = vadd x (smul alpha d);
          r_new = F x_new;
          phi_new = 0.5 * squaredNorm r_new
      in if phi_new \<le> phi0 + c * alpha * dphi0
         then \<lparr>ls_alpha = alpha, ls_merit = phi_new, ls_evaluations = evals + 1, ls_success = True\<rparr>
         else backtrack F x d c rho phi0 dphi0 k (alpha * rho) (evals + 1))"

definition armijo_backtrack ::
  "(vec \<Rightarrow> vec) \<Rightarrow> vec \<Rightarrow> vec \<Rightarrow> mat \<Rightarrow> real \<Rightarrow> real \<Rightarrow> nat \<Rightarrow> LineSearchResult" where
  "armijo_backtrack F x d J c rho max_iters =
     (let r0 = F x;
          phi0 = 0.5 * squaredNorm r0;
          dphi0 = dot r0 (mat_vec (length r0) J d)
      in if dphi0 \<ge> 0
         then \<lparr>ls_alpha = 0, ls_merit = phi0, ls_evaluations = 1, ls_success = False\<rparr>
         else backtrack F x d c rho phi0 dphi0 max_iters 1 1)"

subsection \<open>Diagnostics and configuration\<close>

record IterationStats =
  iteration :: nat
  residual_norm :: real
  step_norm :: real
  alpha :: real
  lambda :: real
  jacobian_cond :: real
  converged :: bool
  status :: string

record SolverTrace =
  iterations :: "IterationStats list"
  success :: bool
  total_iterations :: nat
  final_residual :: real
  termination_reason :: string

definition empty_trace :: SolverTrace where
  "empty_trace = \<lparr>iterations = [], success = False, total_iterations = 0, final_residual = 0,
                   termination_reason = []\<rparr>"

definition add_iteration :: "SolverTrace \<Rightarrow> IterationStats \<Rightarrow> SolverTrace" where
  "add_iteration tr stats =
     tr\<lparr>iterations := iterations tr @ [stats],
        total_iterations := length (iterations tr @ [stats]),
        final_residual := residual_norm stats\<rparr>"

record NewtonConfig =
  tol :: real
  max_iters :: int
  fd_step :: real
  central_diff :: bool
  lambda_init :: real
  lambda_max :: real
  lambda_factor :: real
  armijo_c :: real
  armijo_rho :: real
  use_line_search :: bool
  verbose :: bool

text \<open>The member initialisers of \<open>NewtonConfig\<close>.\<close>

definition default_config :: NewtonConfig where
  "default_config =
     \<lparr>tol = 1 / 10 ^ 10, max_iters = 100, fd_step = 1 / 10 ^ 7, central_diff = True,
      lambda_init = 1 / 10 ^ 6, lambda_max = 10 ^ 6, lambda_factor = 10,
      armijo_c = 1 / 10 ^ 4, armijo_rho = 1 / 2, use_line_search = True, verbose = False\<rparr>"

record NewtonResult =
  res_x :: vec
  res_trace :: SolverTrace
  res_converged :: bool
  res_iterations :: int
  res_final_residual :: real

text \<open>
  The regularisation loop: up to ten factorisations of \<open>JtJ + lambda I\<close>, multiplying
  \<open>lambda\<close> by the factor after each one that is not invertible. It returns the step,
  if one was found, and the \<open>lambda\<close> it ends with.
\<close>

fun regularized_solve ::
  "linalg \<Rightarrow> NewtonConfig \<Rightarrow> nat \<Rightarrow> mat \<Rightarrow> vec \<Rightarrow> nat \<Rightarrow> real \<Rightarrow> vec option \<times> real" where
  "regularized_solve la cfg n JtJ Jtr 0 lam = (None, lam)"
| "regularized_solve la cfg n JtJ Jtr (Suc tries) lam =
     (let A = madd JtJ (msmul lam (identity n))
      in case full_piv_lu la A (smul (- 1) Jtr) of
           Some d \<Rightarrow> (Some d, lam)
         | None \<Rightarrow> regularized_solve la cfg n JtJ Jtr tries (lam * lambda_factor cfg))"

text \<open>
  The main loop of \<open>NewtonSolver::solve\<close>, from iteration \<open>iter\<close> on, with the current
  point, residual, residual norm, \<open>lambda\<close> and trace. No callback is set.
\<close>

function newton_loop ::
  "linalg \<Rightarrow> NewtonConfig \<Rightarrow> (vec \<Rightarrow> vec) \<Rightarrow> nat \<Rightarrow> vec \<Rightarrow> vec \<Rightarrow> real \<Rightarrow> real \<Rightarrow> SolverTrace
     \<Rightarrow> NewtonResult" where
  "newton_loop la cfg F iter x r res_norm lam tr =
     (if \<not> int iter < max_iters cfg then
        \<lparr>res_x = x,
         res_trace = tr\<lparr>success := False, termination_reason := ''Max iterations reached''\<rparr>,
         res_converged = False, res_iterations = max_iters cfg, res_final_residual = res_norm\<rparr>
      else
        let stats = \<lparr>iteration = iter, residual_norm = res_norm, step_norm = 0, alpha = 1,
                     lambda = lam, jacobian_cond = 0, converged = False, status = []\<rparr>
        in if res_norm < tol cfg then
             \<lparr>res_x = x,
              res_trace = (add_iteration tr (stats\<lparr>converged := True, status := ''Converged''\<rparr>))
                \<lparr>success := True,
                 termination_reason := ''Converged: residual below tolerance''\<rparr>,
              res_converged = True, res_iterations = int iter, res_final_residual = res_norm\<rparr>
           else
             let n = length x;
                 J = compute_jacobian F x (fd_step cfg) (central_diff cfg);
                 stats = stats\<lparr>jacobian_cond := jacobi_cond la J\<rparr>;
                 JtJ = mat_tmat J;
                 Jtr = mat_tvec J r
             in case regularized_solve la cfg n JtJ Jtr 10 lam of
                  (None, lam) \<Rightarrow>
                    \<lparr>res_x = x,
                     res_trace = (add_iteration tr (stats\<lparr>status := ''Failed: Jacobian singular''\<rparr>))
                       \<lparr>success := False, termination_reason := ''Failed: Jacobian singular''\<rparr>,
                     res_converged = False, res_iterations = int iter,
                     res_final_residual = res_norm\<rparr>
                | (Some d, lam) \<Rightarrow>
                    let stats = stats\<lparr>step_norm := norm2 d\<rparr>
                    in if use_line_search cfg then
                         let ls_result = armijo_backtrack F x d J (armijo_c cfg) (armijo_rho cfg) 20;
                             alpha = ls_alpha ls_result;
                             x_new = vadd x (smul alpha d);
                             r_new = F x_new;
                             new_residual_norm = norm2 r_new;
                             lam = (if new_residual_norm < res_norm
                                    then max (lambda_init cfg) (lam / lambda_factor cfg)
                                    else min (lambda_max cfg) (lam * lambda_factor cfg));
                             stats = stats\<lparr>alpha := alpha, status := ''Iteration complete''\<rparr>
                         in newton_loop la cfg F (Suc iter) x_new r_new new_residual_norm lam
                              (add_iteration tr stats)
                       else
                         let x_new = vadd x d;
                             r_new = F x_new;
                             new_residual_norm = norm2 r_new;
                             stats = stats\<lparr>alpha := 1, status := ''Iteration complete''\<rparr>
                         in newton_loop la cfg F (Suc iter) x_new r_new new_residual_norm lam
                              (add_iteration tr stats))"
  by pat_completeness auto
termination
  by (relation "measure (\<lambda>(la, cfg, F, iter, x, r, res_norm, lam, tr). nat (max_iters cfg - int iter))")
     auto

declare newton_loop.simps [simp del]

text \<open>
  \<open>NewtonSolver::solve\<close>: the residual at the start, the check that the system is
  square (the \<open>std::runtime_error\<close>), and the loop from iteration 0 with
  \<open>lambda_init\<close>.
\<close>

definition solve :: "linalg \<Rightarrow> NewtonConfig \<Rightarrow> (vec \<Rightarrow> vec) \<Rightarrow> vec \<Rightarrow> error + NewtonResult" where
  "solve la cfg F x0 =
     (let n = length x0; r = F x0
      in if length r \<noteq> n then Inl (NotSquare n (length r))
         else Inr (newton_loop la cfg F 0 x0 r (norm2 r) (lambda_init cfg) empty_trace))"

subsection \<open>Instances and predicates for the solver's properties\<close>

text \<open>
  The two library routines in dimension 1: a 1-by-1 matrix is invertible when its entry
  is not zero, and the solution is the quotient; the condition number of a 1-by-1
  matrix is 1.
\<close>

definition lu1 :: "mat \<Rightarrow> vec \<Rightarrow> vec option" where
  "lu1 A b =
     (case A of
        [[a]] \<Rightarrow> (case b of [b0] \<Rightarrow> if a \<noteq> 0 then Some [b0 / a] else None | _ \<Rightarrow> None)
      | _ \<Rightarrow> None)"

definition la1 :: linalg where
  "la1 = \<lparr>full_piv_lu = lu1, jacobi_cond = (\<lambda>J. 1)\<rparr>"

text \<open>The residual function \<open>F(x) = 1 + x + 2^21 x^2\<close> in dimension 1.\<close>

definition steep :: "vec \<Rightarrow> vec" where
  "steep x = (case x of [a] \<Rightarrow> [1 + a + 2 ^ 21 * a * a] | _ \<Rightarrow> [])"

text \<open>
  A residual function that works coordinate by coordinate: coordinate \<open>i\<close> of the result is
  \<open>g i\<close> of coordinate \<open>i\<close> of the argument. \<open>F(x) = x - c\<close> is of this kind, evaluated
  exactly (\<open>linear_eval\<close>) or with an error: \<open>evaluates_linear delta M c g\<close> says that
  on arguments of absolute value at most \<open>M\<close>, \<open>g\<close> evaluates \<open>x - c\<close> with an absolute
  error of at most \<open>delta\<close> in each coordinate. Double-precision subtraction is of this
  kind: rounding the argument and then the difference, with \<open>c\<close> and the argument at most
  \<open>M\<close> in absolute value, gives an error of at most \<open>M / 2^51\<close>. \<open>fixed_point_eval\<close> is
  an evaluation with an error: it truncates the difference to 40 binary places.
\<close>

definition componentwise :: "(nat \<Rightarrow> real \<Rightarrow> real) \<Rightarrow> vec \<Rightarrow> vec" where
  "componentwise g x = map (\<lambda>i. g i (x ! i)) [0..<length x]"

definition linear_eval :: "vec \<Rightarrow> nat \<Rightarrow> real \<Rightarrow> real" where
  "linear_eval c i y = y - c ! i"

definition linear_residual :: "vec \<Rightarrow> vec \<Rightarrow> vec" where
  "linear_residual c = componentwise (linear_eval c)"

definition evaluates_linear :: "real \<Rightarrow> real \<Rightarrow> vec \<Rightarrow> (nat \<Rightarrow> real \<Rightarrow> real) \<Rightarrow> bool" where
  "evaluates_linear delta M c g =
     (\<forall>i<length c. \<forall>y. \<bar>y\<bar> \<le> M \<longrightarrow> \<bar>g i y - (y - c ! i)\<bar> \<le> delta)"




definition lu_sized :: "linalg \<Rightarrow> bool" where
  "lu_sized la = (\<forall>A b d. full_piv_lu la A b = Some d \<longrightarrow> length d = length b)"

text \<open>
  The relation between two successive trace entries: unless the line search of the first
  ended at \<open>rho ^ 20\<close> (twenty failed tests), the residual norm has not grown. \<open>trace_inv\<close>
  is the loop invariant: the trace so far is linked by \<open>armijo_ok\<close>, and so is its last
  entry to the current residual norm.
\<close>

definition armijo_ok :: "real \<Rightarrow> IterationStats \<Rightarrow> IterationStats \<Rightarrow> bool" where
  "armijo_ok rho s s' = (alpha s \<noteq> rho ^ 20 \<longrightarrow> residual_norm s' \<le> residual_norm s)"

definition trace_inv :: "real \<Rightarrow> SolverTrace \<Rightarrow> real \<Rightarrow> bool" where
  "trace_inv rho tr res_norm =
     (successively (armijo_ok rho) (iterations tr) \<and>
      (iterations tr \<noteq> [] \<longrightarrow> alpha (last (iterations tr)) \<noteq> rho ^ 20 \<longrightarrow>
         res_norm \<le> residual_norm (last (iterations tr))))"


text \<open>The residual norms of the recorded trace, in order.\<close>

definition trace_residuals :: "error + NewtonResult \<Rightarrow> real list" where
  "trace_residuals out =
     (case out of Inl e \<Rightarrow> [] | Inr res \<Rightarrow> map residual_norm (iterations (res_trace res)))"

text \<open>The diagonal matrix with the diagonal \<open>a\<close>, as the list of its columns.\<close>

definition diag_mat :: "vec \<Rightarrow> mat" where
  "diag_mat a = map (\<lambda>j. (replicate (length a) 0)[j := a ! j]) [0..<length a]"

chapter \<open>Properties\<close>

section \<open>The Kuhn tree\<close>

lemma to_string_player [simp]: "to_string 0 = ''0''" "to_string 1 = ''1''"
  by (simp_all add: to_string_def digits.simps digit_char_def)

text \<open>
  The recursive equations are used only on a node given by its constructor, so that
  rewriting with them stops.
\<close>

lemmas traverse_tree_GameNode =
  traverse_tree.simps[of "GameNode t pl i la ch pay po h c0 c1 pc" for t pl i la ch pay po h c0 c1 pc]
lemmas leaf_edges_GameNode =
  leaf_edges.simps[of "GameNode t pl i la ch pay po h c0 c1 pc" for t pl i la ch pay po h c0 c1 pc]
lemmas build_subtree_GameNode =
  build_subtree.simps[of "GameNode t pl i la ch pay po h c0 c1 pc" for t pl i la ch pay po h c0 c1 pc]

lemma make_showdown_GameNode:
  "make_showdown (GameNode t pl i la ch pay po h c0 c1 pc) p0c p1c potv =
     GameNode Terminal (- 1) i la ch (showdown_payoff p0c p1c potv) potv h c0 c1 pc"
  by (simp add: make_showdown_def showdown_payoff_def compare_cards_def Let_def)

lemma deal_node_tree:
  "deal_node p0c p1c = ChildEdge Check (p0c * 10 + p1c) (1 / 6) (kuhn_deal_tree p0c p1c)"
  by (simp add: deal_node_def kuhn_deal_tree_def build_subtree_GameNode Let_def
      make_showdown_GameNode make_fold_terminal_def PLAYER_0_def PLAYER_1_def new_node_def)

lemma build_tree_explicit:
  "build_tree = GameNode Chance (- 1) [] []
     [ChildEdge Check 1 (1 / 6) (kuhn_deal_tree 0 1), ChildEdge Check 2 (1 / 6) (kuhn_deal_tree 0 2),
      ChildEdge Check 10 (1 / 6) (kuhn_deal_tree 1 0), ChildEdge Check 12 (1 / 6) (kuhn_deal_tree 1 2),
      ChildEdge Check 20 (1 / 6) (kuhn_deal_tree 2 0), ChildEdge Check 21 (1 / 6) (kuhn_deal_tree 2 1)]
     0 2 [] (- 1) (- 1) (- 1)"
  by (simp add: build_tree_def deal_node_tree new_node_def CHANCE_def PLAYER_0_def)

lemma terminals_kuhn_deal_tree:
  "map history (terminals (kuhn_deal_tree p0c p1c)) = [''cc'', ''cbk'', ''cbf'', ''bk'', ''bf'']"
  by (simp add: kuhn_deal_tree_def terminals_def traverse_tree_GameNode)

lemma kuhn_terminal_histories:
  "length (children build_tree) = 6 \<and>
   list_all (\<lambda>e. map history (terminals (child e)) = [''cc'', ''cbk'', ''cbf'', ''bk'', ''bf''])
     (children build_tree)"
  by (simp add: build_tree_explicit terminals_kuhn_deal_tree)

lemma leaf_edges_kuhn_deal_tree:
  "p0c \<noteq> p1c \<Longrightarrow> list_all kuhn_payoff_ok (leaf_edges (kuhn_deal_tree p0c p1c))"
  by (simp add: kuhn_deal_tree_def leaf_edges_GameNode kuhn_payoff_ok_def showdown_payoff_def PLAYER_0_def)

lemma leaf_edges_cover:
  "map (\<lambda>(parent, a, t). t) (leaf_edges (kuhn_deal_tree p0c p1c)) = terminals (kuhn_deal_tree p0c p1c)"
  by (simp add: kuhn_deal_tree_def leaf_edges_GameNode terminals_def traverse_tree_GameNode)

lemma type_kuhn_deal_tree: "type (kuhn_deal_tree p0c p1c) = Player"
  by (simp add: kuhn_deal_tree_def)

lemma kuhn_leaf_payoffs:
  "map (\<lambda>(parent, a, t). t) (leaf_edges build_tree) = terminals build_tree \<and>
   list_all kuhn_payoff_ok (leaf_edges build_tree)"
  by (simp add: build_tree_explicit leaf_edges_GameNode leaf_edges_kuhn_deal_tree leaf_edges_cover
      terminals_def[of "GameNode t pl i la ch pay po h c0 c1 pc" for t pl i la ch pay po h c0 c1 pc] traverse_tree_GameNode terminals_def[symmetric] type_kuhn_deal_tree)


lemma string_less_simps:
  "((c # cs) < (d # ds)) = (c < d \<or> c = d \<and> cs < ds)"
  "([] < (d # ds)) = True"
  "((c # cs) < ([]::string)) = False"
  by simp_all

lemma kuhn_info_sets:
  "get_info_sets build_tree =
    [\<lparr>is_id = ''P0:J:'', is_player = 0, is_legal_actions = [Check, Bet]\<rparr>,
     \<lparr>is_id = ''P0:J:cb'', is_player = 0, is_legal_actions = [Call, Fold]\<rparr>,
     \<lparr>is_id = ''P0:K:'', is_player = 0, is_legal_actions = [Check, Bet]\<rparr>,
     \<lparr>is_id = ''P0:K:cb'', is_player = 0, is_legal_actions = [Call, Fold]\<rparr>,
     \<lparr>is_id = ''P0:Q:'', is_player = 0, is_legal_actions = [Check, Bet]\<rparr>,
     \<lparr>is_id = ''P0:Q:cb'', is_player = 0, is_legal_actions = [Call, Fold]\<rparr>,
     \<lparr>is_id = ''P1:J:b'', is_player = 1, is_legal_actions = [Call, Fold]\<rparr>,
     \<lparr>is_id = ''P1:J:c'', is_player = 1, is_legal_actions = [Check, Bet]\<rparr>,
     \<lparr>is_id = ''P1:K:b'', is_player = 1, is_legal_actions = [Call, Fold]\<rparr>,
     \<lparr>is_id = ''P1:K:c'', is_player = 1, is_legal_actions = [Check, Bet]\<rparr>,
     \<lparr>is_id = ''P1:Q:b'', is_player = 1, is_legal_actions = [Call, Fold]\<rparr>,
     \<lparr>is_id = ''P1:Q:c'', is_player = 1, is_legal_actions = [Check, Bet]\<rparr>]"
  by (simp add: get_info_sets_def build_tree_explicit kuhn_deal_tree_def traverse_tree_GameNode
      visit_info_set_def make_info_set_id_def card_name_def less_char_def string_less_simps)

lemma player_nodes_kuhn:
  "map (\<lambda>n. (info_set_id n, legal_actions n)) (player_nodes build_tree) =
     concat (map (\<lambda>(a, b).
        [(''P0:'' @ a @ '':'', [Check, Bet]), (''P1:'' @ b @ '':c'', [Check, Bet]),
         (''P0:'' @ a @ '':cb'', [Call, Fold]), (''P1:'' @ b @ '':b'', [Call, Fold])])
       [(''J'', ''Q''), (''J'', ''K''), (''Q'', ''J''), (''Q'', ''K''), (''K'', ''J''), (''K'', ''Q'')])"
  by (simp add: player_nodes_def build_tree_explicit kuhn_deal_tree_def traverse_tree_GameNode
      make_info_set_id_def card_name_def)

text \<open>
  C5. Under each of the six deals the terminal histories are exactly cc, cbk, cbf, bk, bf
  (in this order of the tree). Every edge into a terminal satisfies \<open>kuhn_payoff_ok\<close>:
  a fold pays -1 when player 0 folds and +1 when player 1 folds, on both fold lines, and a
  showdown pays half the pot to player 0 when his card is higher and minus half the pot
  otherwise; these edges reach every terminal of the tree.
\<close>

theorem kuhn_terminals:
  "length (children build_tree) = 6 \<and>
   list_all (\<lambda>e. set (map history (terminals (child e))) = {''cc'', ''cbk'', ''cbf'', ''bk'', ''bf''})
     (children build_tree) \<and>
   map (\<lambda>(parent, a, t). t) (leaf_edges build_tree) = terminals build_tree \<and>
   list_all kuhn_payoff_ok (leaf_edges build_tree)"
proof -
  have "list_all (\<lambda>e. set (map history (terminals (child e))) = {''cc'', ''cbk'', ''cbf'', ''bk'', ''bf''})
     (children build_tree)"
    using kuhn_terminal_histories by (auto simp: list_all_iff)
  then show ?thesis
    using kuhn_terminal_histories kuhn_leaf_payoffs by blast
qed

text \<open>
  C8. The player nodes of the Kuhn tree carry exactly 12 distinct information set ids.
  \<open>get_info_sets\<close> returns 12 entries, sorted by id and without repetition, and the
  (id, legal actions) pairs it returns are exactly those of the player nodes.
\<close>

theorem kuhn_twelve_info_sets:
  "Finite_Set.card (set (map info_set_id (player_nodes build_tree))) = 12 \<and>
   length (get_info_sets build_tree) = 12 \<and>
   sorted (map is_id (get_info_sets build_tree)) \<and>
   distinct (map is_id (get_info_sets build_tree)) \<and>
   set (map (\<lambda>i. (is_id i, is_legal_actions i)) (get_info_sets build_tree)) =
     set (map (\<lambda>n. (info_set_id n, legal_actions n)) (player_nodes build_tree))"
proof -
  have e: "set (map (\<lambda>i. (is_id i, is_legal_actions i)) (get_info_sets build_tree)) =
     set (map (\<lambda>n. (info_set_id n, legal_actions n)) (player_nodes build_tree))"
    unfolding player_nodes_kuhn kuhn_info_sets by auto
  have d: "distinct (map is_id (get_info_sets build_tree))"
    by (simp add: kuhn_info_sets)
  have "set (map info_set_id (player_nodes build_tree)) =
      fst ` set (map (\<lambda>n. (info_set_id n, legal_actions n)) (player_nodes build_tree))"
    by (simp add: image_image)
  also have "\<dots> = set (map is_id (get_info_sets build_tree))"
    unfolding e[symmetric] by (simp add: image_image)
  finally have c: "Finite_Set.card (set (map info_set_id (player_nodes build_tree))) = 12"
    using distinct_card[OF d] by (simp add: kuhn_info_sets)
  have s: "sorted (map is_id (get_info_sets build_tree))"
    by (simp add: kuhn_info_sets less_eq_char_def less_char_def)
  show ?thesis using c s e d by (simp add: kuhn_info_sets)
qed

section \<open>The Leduc tree\<close>

text \<open>
  The Check edge of a player node that may check or bet and faces no bet, after one
  unfolding of \<open>build_betting_round\<close>: with an empty history string the opponent gets a
  decision node; with a non-empty one the round is over, also when the string is
  non-empty only because it holds the earlier round.
\<close>

lemma check_edge:
  "get_child (build_betting_round (GameNode Player pl iid [Check, Bet] [] pay po h c0 c1 pc)
      fta hist p0c p1c pubc potv 0 rl rnd bs) Check =
   Some (if hist = [] then
           build_betting_round
             (GameNode Player (if pl = 0 then 1 else 0)
                (leduc_make_info_set_id (if pl = 0 then 1 else 0)
                   (if pl = 0 then p1c else p0c) pubc (hist @ ''c'') rnd)
                [Check, Bet] [] 0 potv (hist @ ''c'') p0c p1c pubc)
             fta (hist @ ''c'') p0c p1c pubc potv 0 rl rnd bs
         else if rnd = 1 then
           continue_after_round1 (GameNode Terminal 0 [] [] [] 0 0 (hist @ ''c'') p0c p1c pubc)
             p0c p1c potv (hist @ ''c'')
         else
           leduc_make_showdown (GameNode Terminal 0 [] [] [] 0 0 (hist @ ''c'') p0c p1c pubc)
             p0c p1c pubc potv)"
  by (subst build_betting_round.simps)
     (simp add: get_child_def Let_def new_node_def PLAYER_0_def PLAYER_1_def)

lemma build_betting_round_fields:
  "type (build_betting_round node fta hist p0c p1c pubc potv tc rl rnd bs) = type node \<and>
   player (build_betting_round node fta hist p0c p1c pubc potv tc rl rnd bs) = player node \<and>
   legal_actions (build_betting_round node fta hist p0c p1c pubc potv tc rl rnd bs) = legal_actions node \<and>
   history (build_betting_round node fta hist p0c p1c pubc potv tc rl rnd bs) = history node \<and>
   pot (build_betting_round node fta hist p0c p1c pubc potv tc rl rnd bs) = pot node"
  by (subst (1 2 3 4 5) build_betting_round.simps) (cases node, simp)

lemma continue_after_round1_GameNode:
  "continue_after_round1 (GameNode t pl iid la [] pay po h c0 c1 pc) p0c p1c potv hist =
     GameNode Chance (- 1) iid la
       (map (\<lambda>pub. ChildEdge Check pub
               (1 / real (length (filter (\<lambda>c. c \<noteq> p0c \<and> c \<noteq> p1c) [0..5])))
               (build_betting_round
                  (GameNode Player 0 (leduc_make_info_set_id 0 p0c pub (hist @ ''|'') 2)
                     [Check, Bet] [] 0 potv (hist @ ''|'') p0c p1c pub)
                  0 (hist @ ''|'') p0c p1c pub potv 0 2 2 4))
          (filter (\<lambda>pub. \<not> (pub = p0c \<or> pub = p1c)) [0..5]))
       pay potv h c0 c1 pc"
  by (subst continue_after_round1.simps)
     (simp add: Let_def new_node_def PLAYER_0_def CHANCE_def NUM_CARDS_def MAX_RAISES_def BIG_BET_def)

lemma leduc_deal_node_0_1:
  "leduc_deal_node 0 1 = ChildEdge Check 1 (1 / 30)
     (build_betting_round
        (GameNode Player 0 (leduc_make_info_set_id 0 0 (- 1) [] 1) [Check, Bet] [] 0 2 [] 0 1 (- 1))
        0 [] 0 1 (- 1) 2 0 2 1 2)"
  by (simp add: leduc_deal_node_def Let_def new_node_def PLAYER_0_def ANTE_def MAX_RAISES_def
      SMALL_BET_def)

lemma leduc_first_deal: "get_chance_child leduc_build_tree 1 = Some (child (leduc_deal_node 0 1))"
proof -
  have "[0..NUM_CARDS - 1] = 0 # [1..5]" by (simp add: NUM_CARDS_def upto_rec1)
  moreover have "[1..(5::int)] = 1 # [2..5]" by (simp add: upto_rec1)
  ultimately have "\<exists>rest. children leduc_build_tree = leduc_deal_node 0 1 # rest"
    by (simp add: leduc_build_tree_def Let_def new_node_def)
  moreover have "card (leduc_deal_node 0 1) = 1" by (simp add: leduc_deal_node_def Let_def)
  ultimately show ?thesis by (auto simp: get_chance_child_def)
qed

text \<open>
  C4, evaluated on the built tree. Deal J\<open>s\<close> to player 0 and J\<open>h\<close> to player 1 (deal
  code 1). In round 1 the first check leads to a decision node of player 1, and the
  second check to the chance node that deals the public card. Below the public card
  Q\<open>s\<close> (card 2), player 0 opens round 2 at a node with history \<open>cc|\<close>, legal actions
  Check and Bet, and no bet to call. Its Check edge leads straight to a terminal node
  (the showdown), not to a decision node of player 1: the test \<open>history.empty()\<close> for
  "first check" fails in round 2, whose history string begins with round 1.
\<close>

theorem leduc_round2_first_check_is_terminal:
  "\<exists>n1 n2 n3 n4 t.
     get_chance_child leduc_build_tree 1 = Some n1 \<and>
     type n1 = Player \<and> player n1 = PLAYER_0 \<and> history n1 = [] \<and>
     get_child n1 Check = Some n2 \<and>
     type n2 = Player \<and> player n2 = PLAYER_1 \<and> history n2 = ''c'' \<and>
     get_child n2 Check = Some n3 \<and>
     type n3 = Chance \<and>
     get_chance_child n3 2 = Some n4 \<and>
     type n4 = Player \<and> player n4 = PLAYER_0 \<and> legal_actions n4 = [Check, Bet] \<and>
     history n4 = ''cc|'' \<and> pot n4 = 2 \<and>
     get_child n4 Check = Some t \<and>
     type t = Terminal \<and> history t = ''cc|c'' \<and> children t = []"
proof -
  let ?n1 = "child (leduc_deal_node 0 1)"
  let ?n2 = "build_betting_round
      (GameNode Player 1 (leduc_make_info_set_id 1 1 (- 1) ''c'' 1) [Check, Bet] [] 0 2 ''c'' 0 1 (- 1))
      0 ''c'' 0 1 (- 1) 2 0 2 1 2"
  let ?n3 = "continue_after_round1 (GameNode Terminal 0 [] [] [] 0 0 ''cc'' 0 1 (- 1)) 0 1 2 ''cc''"
  let ?n4 = "build_betting_round
      (GameNode Player 0 (leduc_make_info_set_id 0 0 2 ''cc|'' 2) [Check, Bet] [] 0 2 ''cc|'' 0 1 2)
      0 ''cc|'' 0 1 2 2 0 2 2 4"
  let ?t = "leduc_make_showdown (GameNode Terminal 0 [] [] [] 0 0 ''cc|c'' 0 1 2) 0 1 2 2"
  have 1: "get_chance_child leduc_build_tree 1 = Some ?n1" by (rule leduc_first_deal)
  have f1: "type ?n1 = Player \<and> player ?n1 = PLAYER_0 \<and> history ?n1 = []"
    by (simp add: leduc_deal_node_0_1 build_betting_round_fields PLAYER_0_def)
  have 2: "get_child ?n1 Check = Some ?n2"
    by (simp add: leduc_deal_node_0_1 check_edge)
  have f2: "type ?n2 = Player \<and> player ?n2 = PLAYER_1 \<and> history ?n2 = ''c''"
    by (simp add: build_betting_round_fields PLAYER_1_def)
  have 3: "get_child ?n2 Check = Some ?n3"
    by (simp add: check_edge)
  have u: "[0..(5::int)] = [0, 1, 2, 3, 4, 5]" by (simp add: upto_rec1)
  have f3: "type ?n3 = Chance" by (simp add: continue_after_round1_GameNode)
  have 4: "get_chance_child ?n3 2 = Some ?n4"
    by (simp add: continue_after_round1_GameNode get_chance_child_def u)
  have f4: "type ?n4 = Player \<and> player ?n4 = PLAYER_0 \<and> legal_actions ?n4 = [Check, Bet] \<and>
      history ?n4 = ''cc|'' \<and> pot ?n4 = 2"
    by (simp add: build_betting_round_fields PLAYER_0_def)
  have 5: "get_child ?n4 Check = Some ?t"
    by (simp add: check_edge)
  have f5: "type ?t = Terminal \<and> history ?t = ''cc|c'' \<and> children ?t = []"
    by (simp add: leduc_make_showdown_def Let_def)
  from 1 f1 2 f2 3 f3 4 f4 5 f5 show ?thesis by blast
qed

section \<open>Strategies\<close>

lemma collect_all:
  "(\<And>i. i \<in> set js \<Longrightarrow> f i = Inr (g i)) \<Longrightarrow> collect f js = Inr (map g js)"
  by (induction js) simp_all

lemma fold_update_map_of:
  "fold (\<lambda>i m. m(k i \<mapsto> v i)) js m0 = m0 ++ map_of (rev (map (\<lambda>i. (k i, v i)) js))"
proof (induction js arbitrary: m0)
  case Nil
  show ?case by simp
next
  case (Cons j js)
  show ?case by (simp add: Cons.IH del: fun_upd_apply)
qed

lemma exp_double_nonneg: "0 \<le> exp_double x"
  by (simp add: exp_double_def)

lemma exp_double_0: "exp_double 0 = 1"
  by (simp add: exp_double_def)

text \<open>No underflow down to -700: \<open>exp (-700) \<ge> 0.9^7000 > 2^-1075\<close>.\<close>

lemma exp_double_pos:
  assumes "- 700 \<le> x"
  shows "0 < exp_double x"
proof -
  have "(1 + (- 700) / real 7000) ^ 7000 \<le> exp (- 700)"
    by (rule exp_ge_one_plus_x_over_n_power_n) simp_all
  moreover have "((9 / 10 :: real) ^ 280) ^ 25 = (1 + (- 700) / real 7000) ^ 7000"
  proof -
    have "(1 + (- 700) / real 7000) = (9 / 10 :: real)" by simp
    moreover have "((9 / 10 :: real) ^ 280) ^ 25 = (9 / 10) ^ (280 * 25)"
      by (rule power_mult [symmetric])
    moreover have "(280 * 25 :: nat) = 7000" by simp
    ultimately show ?thesis by (simp only:)
  qed
  ultimately have a: "((9 / 10) ^ 280) ^ 25 \<le> exp (- 700 :: real)" by (simp only:)
  have "(1 / 2 ^ 43 :: real) < (9 / 10) ^ 280" by (simp add: power_divide)
  then have "(1 / 2 ^ 43 :: real) ^ 25 < ((9 / 10) ^ 280) ^ 25"
    by (rule power_strict_mono) simp_all
  moreover have "(1 / 2 ^ 43 :: real) ^ 25 = 1 / 2 ^ 1075"
  proof -
    have "(1 / 2 ^ 43 :: real) ^ 25 = 1 / (2 ^ 43) ^ 25" by (simp only: power_one_over)
    also have "((2::real) ^ 43) ^ 25 = 2 ^ (43 * 25)" by (rule power_mult [symmetric])
    also have "(43 * 25 :: nat) = 1075" by simp
    finally show ?thesis .
  qed
  ultimately have b: "(1 / 2 ^ 1075 :: real) < ((9 / 10) ^ 280) ^ 25" by (simp only:)
  have c: "exp (- 700 :: real) \<le> exp x" using assms by (simp only: exp_le_cancel_iff)
  from less_le_trans[OF b order_trans[OF a c]] have "\<not> exp x \<le> 1 / 2 ^ 1075"
    by (simp only: not_le)
  then show ?thesis unfolding exp_double_def by (simp only: if_False exp_gt_zero)
qed

text \<open>Underflow from -1000 on: \<open>exp 1000 = exp (40/43) ^ 1075 \<ge> 2 ^ 1075\<close>.\<close>

lemma exp_double_underflow:
  assumes "x \<le> - 1000"
  shows "exp_double x = 0"
proof -
  have "1 + (40 / 43) + (40 / 43 :: real)\<^sup>2 / 2 \<le> exp (40 / 43)"
    by (rule exp_lower_Taylor_quadratic) simp
  then have "(2 :: real) \<le> exp (40 / 43)" by (simp add: power2_eq_square)
  then have "(2 :: real) ^ 1075 \<le> exp (40 / 43) ^ 1075"
    by (rule power_mono) simp
  also have "exp (40 / 43 :: real) ^ 1075 = exp (of_nat 1075 * (40 / 43))"
    by (rule exp_of_nat_mult [symmetric])
  also have "of_nat 1075 * (40 / 43) = (1000 :: real)" by simp
  finally have p: "(2 :: real) ^ 1075 \<le> exp 1000" .
  have "exp (- 1000 :: real) = 1 / exp 1000" by (simp only: exp_minus inverse_eq_divide)
  also have "\<dots> \<le> 1 / 2 ^ 1075"
    by (rule divide_left_mono[OF p]) simp_all
  finally have q: "exp (- 1000 :: real) \<le> 1 / 2 ^ 1075" .
  have "exp x \<le> exp (- 1000 :: real)" using assms by (simp only: exp_le_cancel_iff)
  from order_trans[OF this q] show ?thesis unfolding exp_double_def by (simp only: if_True)
qed

lemma member_le_sum_list_real:
  "(\<forall>e\<in>set es. 0 \<le> e) \<Longrightarrow> x \<in> set es \<Longrightarrow> (x :: real) \<le> sum_list es"
proof (induction es)
  case Nil
  then show ?case by simp
next
  case (Cons e es)
  then have "0 \<le> sum_list es" by (intro sum_list_nonneg) simp
  with Cons show ?case by auto
qed

lemma stable_softmax_ok:
  assumes "l \<noteq> []"
  shows "\<exists>p. stable_softmax l = Inr p \<and> length p = length l \<and> (\<forall>x\<in>set p. 0 \<le> x) \<and>
           sum_list p = 1 \<and> (\<forall>a<length l. Max (set l) - l ! a \<le> 700 \<longrightarrow> 0 < p ! a)"
proof -
  define es where "es = map exp_double (map (\<lambda>x. x - Max (set l)) l)"
  have nonneg: "\<forall>e\<in>set es. 0 \<le> e" by (auto simp: es_def exp_double_nonneg)
  have "Max (set l) \<in> set l" using assms by (intro Max_in) simp_all
  then have "exp_double (Max (set l) - Max (set l)) \<in> set es"
    unfolding es_def by (simp add: image_iff) (rule bexI[of _ "Max (set l)"], simp_all)
  then have "1 \<in> set es" by (simp add: exp_double_0)
  from member_le_sum_list_real[OF nonneg this] have spos: "0 < sum_list es" by simp
  have "sum_list (map (\<lambda>e. e / sum_list es) es) = sum_list es / sum_list es"
    by (simp add: divide_inverse sum_list_mult_const)
  then have one: "sum_list (map (\<lambda>e. e / sum_list es) es) = 1" using spos by simp
  have "stable_softmax l = Inr (map (\<lambda>e. e / sum_list es) es)"
    using assms by (simp add: stable_softmax_def es_def Let_def)
  moreover have "length (map (\<lambda>e. e / sum_list es) es) = length l" by (simp add: es_def)
  moreover have "\<forall>x\<in>set (map (\<lambda>e. e / sum_list es) es). 0 \<le> x" using nonneg spos by auto
  moreover have "0 < map (\<lambda>e. e / sum_list es) es ! a"
    if "a < length l" "Max (set l) - l ! a \<le> 700" for a
  proof -
    have "es ! a = exp_double (l ! a - Max (set l))" using that(1) by (simp add: es_def)
    moreover have "0 < exp_double (l ! a - Max (set l))"
      by (rule exp_double_pos) (use that(2) in simp)
    ultimately show ?thesis using that(1) spos by (simp add: es_def)
  qed
  ultimately show ?thesis using one by blast
qed

lemma fold_build_action:
  "m_info_sets (fold (build_action i is) js index) = m_info_sets index \<and>
   m_id_to_idx (fold (build_action i is) js index) = m_id_to_idx index \<and>
   m_total_dim (fold (build_action i is) js index) = m_total_dim index + length js"
  by (induction js arbitrary: index) (simp_all add: build_action_def)

lemma build_info_set_fields:
  "m_info_sets (build_info_set info_sets i index) = m_info_sets index @ [info_sets ! i] \<and>
   m_id_to_idx (build_info_set info_sets i index) = (m_id_to_idx index)(is_id (info_sets ! i) \<mapsto> i) \<and>
   m_total_dim (build_info_set info_sets i index) =
     m_total_dim index + length (is_legal_actions (info_sets ! i))"
  by (simp add: build_info_set_def Let_def fold_build_action)

lemma build_prefix:
  "k \<le> length info_sets \<Longrightarrow>
   m_info_sets (fold (build_info_set info_sets) [0..<k] empty_index) = take k info_sets \<and>
   m_id_to_idx (fold (build_info_set info_sets) [0..<k] empty_index) =
     map_of (rev (map (\<lambda>i. (is_id (info_sets ! i), i)) [0..<k])) \<and>
   m_total_dim (fold (build_info_set info_sets) [0..<k] empty_index) =
     sum_list (take k (block_sizes info_sets))"
proof (induction k)
  case 0
  show ?case by (simp add: empty_index_def)
next
  case (Suc k)
  then have k: "k < length info_sets" and IH:
    "m_info_sets (fold (build_info_set info_sets) [0..<k] empty_index) = take k info_sets"
    "m_id_to_idx (fold (build_info_set info_sets) [0..<k] empty_index) =
       map_of (rev (map (\<lambda>i. (is_id (info_sets ! i), i)) [0..<k]))"
    "m_total_dim (fold (build_info_set info_sets) [0..<k] empty_index) =
       sum_list (take k (block_sizes info_sets))"
    by simp_all
  have t: "take (Suc k) (block_sizes info_sets) =
      take k (block_sizes info_sets) @ [length (is_legal_actions (info_sets ! k))]"
    using k by (simp add: take_Suc_conv_app_nth block_sizes_def)
  show ?case
    using k by (simp add: build_info_set_fields IH take_Suc_conv_app_nth t del: fun_upd_apply)
qed

lemma build_fields:
  "m_info_sets (build info_sets) = info_sets"
  "m_id_to_idx (build info_sets) =
     map_of (rev (map (\<lambda>i. (is_id (info_sets ! i), i)) [0..<length info_sets]))"
  "m_total_dim (build info_sets) = sum_list (block_sizes info_sets)"
  using build_prefix[of "length info_sets" info_sets] by (simp_all add: build_def block_sizes_def)

lemma info_set_start_sum:
  "info_set_start index i = sum_list (take i (block_sizes (m_info_sets index))) \<or> length (m_info_sets index) < i"
proof (induction i)
  case 0
  show ?case by (simp add: info_set_start_def)
next
  case (Suc i)
  show ?case
  proof (cases "Suc i \<le> length (m_info_sets index)")
    case True
    then have i: "i < length (m_info_sets index)" by simp
    with Suc have "info_set_start index i = sum_list (take i (block_sizes (m_info_sets index)))"
      by auto
    then show ?thesis using i
      by (simp add: info_set_start_def take_Suc_conv_app_nth block_sizes_def)
  next
    case False
    then show ?thesis by simp
  qed
qed

lemma block_in_range:
  assumes "i < length xs"
  shows "sum_list (take i xs) + xs ! i \<le> sum_list (xs::nat list)"
proof -
  have "sum_list xs = sum_list (take (Suc i) xs) + sum_list (drop (Suc i) xs)"
    by (metis append_take_drop_id sum_list_append)
  then show ?thesis using assms by (simp add: take_Suc_conv_app_nth)
qed

lemma from_logits_step_ok:
  assumes "i < length (m_info_sets index)"
    and "sum_list (block_sizes (m_info_sets index)) \<le> length w"
  shows "from_logits_step w index i (Inr s) =
     Inr (s\<lparr>m_logits := (m_logits s)(is_id (info_set index i) \<mapsto> block w index i),
            m_actions := (m_actions s)(is_id (info_set index i) \<mapsto> is_legal_actions (info_set index i))\<rparr>)"
proof -
  have st: "info_set_start index i = sum_list (take i (block_sizes (m_info_sets index)))"
    using info_set_start_sum[of index i] assms(1) by auto
  have "sum_list (take i (block_sizes (m_info_sets index))) + block_sizes (m_info_sets index) ! i
      \<le> sum_list (block_sizes (m_info_sets index))"
    using assms(1) by (intro block_in_range) (simp add: block_sizes_def)
  then have r: "info_set_start index i + length (is_legal_actions (info_set index i)) \<le> length w"
    using assms st by (simp add: block_sizes_def info_set_def)
  have "collect (\<lambda>a. coeff w (info_set_start index i + a))
          [0..<length (is_legal_actions (info_set index i))] = Inr (block w index i)"
    unfolding block_def using r by (intro collect_all) (simp add: coeff_def)
  then show ?thesis by (simp add: from_logits_step_def Let_def)
qed

lemma from_logits_fold:
  assumes "set js \<subseteq> {..<length (m_info_sets index)}"
    and "sum_list (block_sizes (m_info_sets index)) \<le> length w"
  shows "fold (from_logits_step w index) js (Inr s) =
     Inr \<lparr>m_logits = fold (\<lambda>i m. m(is_id (info_set index i) \<mapsto> block w index i)) js (m_logits s),
          m_actions = fold (\<lambda>i m. m(is_id (info_set index i) \<mapsto> is_legal_actions (info_set index i)))
                        js (m_actions s)\<rparr>"
  using assms(1)
proof (induction js arbitrary: s)
  case Nil
  show ?case by simp
next
  case (Cons j js)
  then have j: "j < length (m_info_sets index)" and js: "set js \<subseteq> {..<length (m_info_sets index)}"
    by auto
  show ?case
    by (simp add: from_logits_step_ok[OF j assms(2)] Cons.IH[OF js] del: fun_upd_apply)
qed

lemma from_logits_ok:
  assumes "length w = total_dim (build info_sets)"
  shows "\<exists>s. from_logits w (build info_sets) = Inr s \<and>
     (\<forall>iid. m_logits s iid = map_option (block w (build info_sets)) (m_id_to_idx (build info_sets) iid))"
proof -
  let ?ix = "build info_sets"
  let ?n = "length info_sets"
  have le: "sum_list (block_sizes (m_info_sets ?ix)) \<le> length w"
    using assms by (simp add: total_dim_def build_fields)
  have sub: "set [0..<?n] \<subseteq> {..<length (m_info_sets ?ix)}" by (auto simp: build_fields)
  let ?s = "\<lparr>m_logits = fold (\<lambda>i m. m(is_id (info_set ?ix i) \<mapsto> block w ?ix i)) [0..<?n]
                (m_logits empty_strategy),
          m_actions = fold (\<lambda>i m. m(is_id (info_set ?ix i) \<mapsto> is_legal_actions (info_set ?ix i)))
                        [0..<?n] (m_actions empty_strategy)\<rparr>"
  have f: "from_logits w ?ix = Inr ?s"
    using from_logits_fold[OF sub le, of empty_strategy]
    by (simp add: from_logits_def num_info_sets_def build_fields)
  have m1: "map (\<lambda>i. (is_id (info_set ?ix i), block w ?ix i)) [0..<?n] =
        map (\<lambda>(k, i). (k, block w ?ix i)) (map (\<lambda>i. (is_id (info_sets ! i), i)) [0..<?n])"
    by (simp add: info_set_def build_fields)
  have "m_logits ?s iid = map_option (block w ?ix) (m_id_to_idx ?ix iid)" for iid
  proof -
    have "m_logits ?s iid =
        map_of (rev (map (\<lambda>i. (is_id (info_set ?ix i), block w ?ix i)) [0..<?n])) iid"
      by (simp add: fold_update_map_of empty_strategy_def del: fun_upd_apply)
    also have "\<dots> = map_of (map (\<lambda>(k, i). (k, block w ?ix i))
        (rev (map (\<lambda>i. (is_id (info_sets ! i), i)) [0..<?n]))) iid"
      unfolding m1 by (simp only: rev_map)
    also have "\<dots> = map_option (block w ?ix) (m_id_to_idx ?ix iid)"
      unfolding build_fields(2) map_of_map by simp
    finally show ?thesis .
  qed
  with f show ?thesis by blast
qed

lemma id_to_idx_range:
  assumes "m_id_to_idx (build info_sets) iid = Some i"
  shows "i < length info_sets \<and> is_id (info_sets ! i) = iid"
proof -
  from assms have "map_of (rev (map (\<lambda>i. (is_id (info_sets ! i), i)) [0..<length info_sets])) iid = Some i"
    by (simp add: build_fields(2))
  then have "(iid, i) \<in> set (rev (map (\<lambda>i. (is_id (info_sets ! i), i)) [0..<length info_sets]))"
    by (rule map_of_SomeD)
  then show ?thesis by auto
qed

text \<open>
  C6 (amended). Let \<open>w\<close> be a flat logit vector for the index built from a list of
  information sets (its length is the total dimension), each with at least one legal
  action. For every id the index knows, at position \<open>i\<close>, \<open>from_logits\<close> succeeds and
  \<open>probs\<close> returns a vector as long as the legal-action list of information set \<open>i\<close>,
  with entries that are at least 0 and sum to 1 (so within 1e-9 of 1); the entry of an
  action is strictly positive when its logit is at most 700 below the largest logit of
  the information set.
\<close>

theorem strategy_probs_distribution:
  assumes "length w = total_dim (build info_sets)"
    and "\<forall>is \<in> set info_sets. is_legal_actions is \<noteq> []"
    and "info_set_idx (build info_sets) iid = int i"
  shows "\<exists>s p. from_logits w (build info_sets) = Inr s \<and> probs s iid = Inr p \<and>
           length p = length (is_legal_actions (info_set (build info_sets) i)) \<and>
           (\<forall>x \<in> set p. 0 \<le> x) \<and>
           (\<forall>a < length p.
              Max (set (block w (build info_sets) i)) - block w (build info_sets) i ! a \<le> 700
              \<longrightarrow> 0 < p ! a) \<and>
           sum_list p = 1 \<and> \<bar>sum_list p - 1\<bar> \<le> 1 / 10 ^ 9"
proof -
  from assms(3) have idx: "m_id_to_idx (build info_sets) iid = Some i"
    by (auto simp: info_set_idx_def split: option.splits)
  from id_to_idx_range[OF idx] have i: "i < length info_sets" by simp
  from from_logits_ok[OF assms(1)] idx obtain s where s: "from_logits w (build info_sets) = Inr s"
    and l: "m_logits s iid = Some (block w (build info_sets) i)" by auto
  have len: "length (block w (build info_sets) i) =
      length (is_legal_actions (info_set (build info_sets) i))"
    by (simp add: block_def)
  have "is_legal_actions (info_set (build info_sets) i) \<noteq> []"
    using assms(2) i by (simp add: info_set_def build_fields)
  then have "block w (build info_sets) i \<noteq> []" using len by auto
  from stable_softmax_ok[OF this] obtain p where
    "stable_softmax (block w (build info_sets) i) = Inr p" "length p = length (block w (build info_sets) i)"
    "\<forall>x\<in>set p. 0 \<le> x" "sum_list p = 1"
    "\<forall>a<length (block w (build info_sets) i).
       Max (set (block w (build info_sets) i)) - block w (build info_sets) i ! a \<le> 700 \<longrightarrow> 0 < p ! a"
    by blast
  then show ?thesis using s l len by (auto simp: probs_def)
qed

text \<open>
  The instance with one information set of two actions and the logits 700 and 0: both
  probabilities are positive.
\<close>

theorem strategy_probs_distribution_witness:
  "\<exists>s p. from_logits [700, 0]
            (build [\<lparr>is_id = ''P0:J:'', is_player = 0, is_legal_actions = [Check, Bet]\<rparr>]) = Inr s \<and>
          probs s ''P0:J:'' = Inr p \<and> length p = 2 \<and>
          0 \<le> p ! 0 \<and> 0 \<le> p ! 1 \<and> 0 < p ! 0 \<and> 0 < p ! 1 \<and>
          sum_list p = 1 \<and> \<bar>sum_list p - 1\<bar> \<le> 1 / 10 ^ 9"
proof -
  let ?is = "[\<lparr>is_id = ''P0:J:'', is_player = 0, is_legal_actions = [Check, Bet]\<rparr>]"
  have b: "block [700, 0] (build ?is) 0 = [700, 0]"
    by (simp add: block_def info_set_def info_set_start_def build_fields)
  have h: "length [700, 0 :: real] = total_dim (build ?is)"
    "\<forall>is \<in> set ?is. is_legal_actions is \<noteq> []"
    "info_set_idx (build ?is) ''P0:J:'' = int 0"
    by (simp_all add: total_dim_def info_set_idx_def build_fields block_sizes_def)
  from strategy_probs_distribution[OF h] obtain s p where
    sp: "from_logits [700, 0] (build ?is) = Inr s" "probs s ''P0:J:'' = Inr p"
      "length p = length (is_legal_actions (info_set (build ?is) 0))"
      "\<forall>x \<in> set p. 0 \<le> x"
      "\<forall>a < length p. Max (set (block [700, 0] (build ?is) 0)) - block [700, 0] (build ?is) 0 ! a \<le> 700
         \<longrightarrow> 0 < p ! a"
      "sum_list p = 1" "\<bar>sum_list p - 1\<bar> \<le> 1 / 10 ^ 9"
    by blast
  have len: "length p = 2" using sp(3) by (simp add: info_set_def build_fields)
  have "0 < p ! 0" "0 < p ! 1" using sp(5) len unfolding b by simp_all
  moreover have "0 \<le> p ! 0" "0 \<le> p ! 1" using sp(4) len by simp_all
  ultimately show ?thesis using sp(1,2,6,7) len by blast
qed

text \<open>
  C6 as stated fails for the logits 1000 and 0 of one information set with two actions:
  the exponential of -1000 underflows to 0, and the probabilities are 1 and 0.
\<close>

theorem strategy_probs_underflow:
  "\<exists>s. from_logits [1000, 0]
          (build [\<lparr>is_id = ''P0:J:'', is_player = 0, is_legal_actions = [Check, Bet]\<rparr>]) = Inr s \<and>
        probs s ''P0:J:'' = Inr [1, 0]"
proof -
  let ?is = "[\<lparr>is_id = ''P0:J:'', is_player = 0, is_legal_actions = [Check, Bet]\<rparr>]"
  have b: "block [1000, 0] (build ?is) 0 = [1000, 0]"
    by (simp add: block_def info_set_def info_set_start_def build_fields)
  have "length [1000, 0 :: real] = total_dim (build ?is)"
    by (simp add: total_dim_def build_fields block_sizes_def)
  from from_logits_ok[OF this] obtain s where s: "from_logits [1000, 0] (build ?is) = Inr s"
    and l: "\<forall>iid. m_logits s iid =
      map_option (block [1000, 0] (build ?is)) (m_id_to_idx (build ?is) iid)"
    by blast
  have "m_logits s ''P0:J:'' = Some [1000, 0]"
    using l b by (simp add: build_fields)
  moreover have "stable_softmax [1000, 0] = Inr [1, 0]"
    by (simp add: stable_softmax_def exp_double_0 exp_double_underflow)
  ultimately show ?thesis using s by (simp add: probs_def)
qed

text \<open>
  C9. When the id is not in the strategy's logit map, \<open>probs\<close>, \<open>prob\<close> and \<open>logits\<close>
  all fail with the "Unknown information set" error for that id. The three are functions
  of the strategy that return only this result, as the \<open>const\<close> members they model:
  there is no changed strategy to speak of.
\<close>

theorem unknown_info_set_query:
  assumes "m_logits s iid = None"
  shows "probs s iid = Inl (UnknownInfoSet iid) \<and>
         prob s iid a = Inl (UnknownInfoSet iid) \<and>
         logits s iid = Inl (UnknownInfoSet iid)"
  using assms by (simp add: probs_def prob_def logits_def)

theorem unknown_info_set_query_witness:
  "m_logits empty_strategy ''P0:J:'' = None \<and>
   probs empty_strategy ''P0:J:'' = Inl (UnknownInfoSet ''P0:J:'') \<and>
   prob empty_strategy ''P0:J:'' Check = Inl (UnknownInfoSet ''P0:J:'') \<and>
   logits empty_strategy ''P0:J:'' = Inl (UnknownInfoSet ''P0:J:'')"
  using unknown_info_set_query[of empty_strategy "''P0:J:''" Check]
  by (simp add: empty_strategy_def)

section \<open>Expected value and best response\<close>

lemma traverse_tree_self: "node \<in> set (traverse_tree node)"
  by (subst traverse_tree.simps) simp

lemma traverse_tree_child:
  assumes "edge \<in> set (children node)"
  shows "set (traverse_tree (child edge)) \<subseteq> set (traverse_tree node)"
  using assms by (subst (2) traverse_tree.simps) auto

lemma fits_child: "fits sigma node \<Longrightarrow> edge \<in> set (children node) \<Longrightarrow> fits sigma (child edge)"
  using traverse_tree_child[of edge node] by (auto simp: fits_def player_nodes_def list_all_iff)

lemma fits_self: "fits sigma node \<Longrightarrow> type node = Player \<Longrightarrow> fits_node sigma node"
  using traverse_tree_self[of node] by (auto simp: fits_def player_nodes_def list_all_iff)

lemma probs_fits_node:
  assumes "fits_node sigma n"
  shows "\<exists>ps. probs sigma (info_set_id n) = Inr ps \<and> length ps = length (children n) \<and>
           (\<forall>x\<in>set ps. 0 \<le> x) \<and> sum_list ps = 1"
proof -
  from assms obtain l where l: "m_logits sigma (info_set_id n) = Some l"
    "length l = length (children n)" "children n \<noteq> []"
    by (auto simp: fits_node_def split: option.splits)
  then have "l \<noteq> []" by auto
  from stable_softmax_ok[OF this] l show ?thesis by (auto simp: probs_def)
qed

lemma fold_add_result:
  "fold add_result (map (\<lambda>x. Inr (f x)) xs) (Inr a) = Inr (a + sum_list (map f xs))"
  by (induction xs arbitrary: a) (simp_all add: add_result_def add.assoc)

lemma sum_results_Inr: "sum_results (map (\<lambda>x. Inr (f x)) xs) = Inr (sum_list (map f xs))"
  by (simp add: sum_results_def fold_add_result)

lemma fold_xadd_result:
  "fold xadd_result (map (\<lambda>x. Inr (Fin (g x))) xs) (Inr (Fin a)) =
     Inr (Fin (a + sum_list (map g xs)))"
  by (induction xs arbitrary: a) (simp_all add: xadd_result_def add.assoc)

lemma fold_xmax_result_Fin:
  "\<exists>m. fold xmax_result (map (\<lambda>x. Inr (Fin (g x))) xs) (Inr (Fin a)) = Inr (Fin m) \<and>
       a \<le> m \<and> (\<forall>x\<in>set xs. g x \<le> m)"
proof (induction xs arbitrary: a)
  case Nil
  show ?case by simp
next
  case (Cons x xs)
  obtain m where m: "fold xmax_result (map (\<lambda>x. Inr (Fin (g x))) xs) (Inr (Fin (if a < g x then g x else a))) = Inr (Fin m)"
      "(if a < g x then g x else a) \<le> m" "\<forall>y\<in>set xs. g y \<le> m"
    using Cons.IH[of "if a < g x then g x else a"] by blast
  have "fold xmax_result (map (\<lambda>x. Inr (Fin (g x))) (x # xs)) (Inr (Fin a)) = Inr (Fin m)"
    using m(1) by (cases "a < g x") (simp_all add: xmax_result_def)
  moreover have "a \<le> m" "g x \<le> m" using m(2) by (auto split: if_splits)
  ultimately show ?case using m(3) by auto
qed

lemma fold_xmax_result_NegInf:
  assumes "xs \<noteq> []"
  shows "\<exists>m. fold xmax_result (map (\<lambda>x. Inr (Fin (g x))) xs) (Inr NegInf) = Inr (Fin m) \<and>
       (\<forall>x\<in>set xs. g x \<le> m)"
proof -
  from assms obtain y ys where xs: "xs = y # ys" by (cases xs) auto
  from fold_xmax_result_Fin[of g ys "g y"] obtain m where
    "fold xmax_result (map (\<lambda>x. Inr (Fin (g x))) ys) (Inr (Fin (g y))) = Inr (Fin m)"
    "g y \<le> m" "\<forall>x\<in>set ys. g x \<le> m" by blast
  then show ?thesis unfolding xs by (auto simp: xmax_result_def)
qed


lemma sum_list_nth_map: "sum_list (map (\<lambda>i. ps ! i) [0..<length ps]) = sum_list (ps::real list)"
  by (simp add: map_nth)

lemma weighted_sum_le_max:
  fixes ps :: "real list"
  assumes "\<forall>i<length ps. 0 \<le> ps ! i" "sum_list ps = 1" "0 \<le> own"
    and "\<forall>i<length ps. v i \<le> own * ps ! i * b i" "\<forall>i<length ps. b i \<le> m"
  shows "sum_list (map v [0..<length ps]) \<le> own * m"
proof -
  have "sum_list (map v [0..<length ps]) \<le> sum_list (map (\<lambda>i. own * m * ps ! i) [0..<length ps])"
  proof (rule sum_list_mono)
    fix i assume "i \<in> set [0..<length ps]"
    then have i: "i < length ps" by simp
    have "v i \<le> own * ps ! i * b i" using assms(4) i by blast
    also have "\<dots> \<le> own * ps ! i * m"
      using assms(1,3,5) i by (intro mult_left_mono) auto
    also have "\<dots> = own * m * ps ! i" by simp
    finally show "v i \<le> own * m * ps ! i" .
  qed
  also have "\<dots> = own * m * sum_list (map (\<lambda>i. ps ! i) [0..<length ps])"
    by (simp add: sum_list_const_mult)
  also have "\<dots> = own * m" by (simp add: map_nth assms(2))
  finally show ?thesis .
qed

lemma value_for_sum_list: "sum_list (map (\<lambda>x. value_for p (f x)) xs) = value_for p (sum_list (map f xs))"
  by (induction xs) (simp_all add: value_for_def)

lemma reach_terminal:
  "reach_p0_of p own opp * reach_p1_of p own opp = own * opp"
  by (simp add: reach_p0_of_def reach_p1_of_def)

lemma reach_own_node:
  "pl = p \<Longrightarrow> p = PLAYER_0 \<or> p = PLAYER_1 \<Longrightarrow>
   (if pl = PLAYER_0 then reach_p0_of p own opp * a else reach_p0_of p own opp) = reach_p0_of p (own * a) opp \<and>
   (if pl = PLAYER_0 then reach_p1_of p own opp else reach_p1_of p own opp * a) = reach_p1_of p (own * a) opp"
  by (auto simp: reach_p0_of_def reach_p1_of_def PLAYER_0_def PLAYER_1_def)

lemma reach_opp_node:
  "pl \<noteq> p \<Longrightarrow> p = PLAYER_0 \<or> p = PLAYER_1 \<Longrightarrow> pl = PLAYER_0 \<or> pl = PLAYER_1 \<Longrightarrow>
   (if pl = PLAYER_0 then reach_p0_of p own opp * a else reach_p0_of p own opp) = reach_p0_of p own (opp * a) \<and>
   (if pl = PLAYER_0 then reach_p1_of p own opp else reach_p1_of p own opp * a) = reach_p1_of p own (opp * a)"
  by (auto simp: reach_p0_of_def reach_p1_of_def PLAYER_0_def PLAYER_1_def)

lemma br_ge_ev_induct:
  assumes p: "p = PLAYER_0 \<or> p = PLAYER_1"
  shows "fits sigma node \<Longrightarrow> 0 \<le> own \<Longrightarrow>
    \<exists>v b. ev_recursive node sigma (reach_p0_of p own opp) (reach_p1_of p own opp) rc None = Inr v \<and>
           br_recursive node sigma p opp rc = Inr (Fin b) \<and>
           value_for p v \<le> own * b"
proof (induction node arbitrary: own opp rc rule: measure_induct_rule[of size])
  case (less node)
  let ?EV = "\<lambda>n own opp rc. ev_recursive n sigma (reach_p0_of p own opp) (reach_p1_of p own opp) rc None"
  let ?BR = "\<lambda>n opp rc. br_recursive n sigma p opp rc"
  have IH: "\<And>edge own opp rc. edge \<in> set (children node) \<Longrightarrow> 0 \<le> own \<Longrightarrow>
     ?EV (child edge) own opp rc = Inr (projr (?EV (child edge) own opp rc)) \<and>
     ?BR (child edge) opp rc = Inr (Fin (fin (projr (?BR (child edge) opp rc)))) \<and>
     value_for p (projr (?EV (child edge) own opp rc)) \<le> own * fin (projr (?BR (child edge) opp rc))"
  proof -
    fix edge own opp rc assume e: "edge \<in> set (children node)" and o: "0 \<le> (own::real)"
    from less.IH[OF size_child[OF e] fits_child[OF less.prems(1) e] o, of opp rc]
    obtain v b where "?EV (child edge) own opp rc = Inr v" "?BR (child edge) opp rc = Inr (Fin b)"
      "value_for p v \<le> own * b" by blast
    then show "?EV (child edge) own opp rc = Inr (projr (?EV (child edge) own opp rc)) \<and>
     ?BR (child edge) opp rc = Inr (Fin (fin (projr (?BR (child edge) opp rc)))) \<and>
     value_for p (projr (?EV (child edge) own opp rc)) \<le> own * fin (projr (?BR (child edge) opp rc))"
      by simp
  qed
  show ?case
  proof (cases "type node")
    case Terminal
    have "?EV node own opp rc = Inr (own * opp * rc * payoff node)"
      by (subst ev_recursive.simps) (simp add: Terminal reach_terminal)
    moreover have "?BR node opp rc = Inr (Fin (opp * rc * value_for p (payoff node)))"
      using p by (subst br_recursive.simps) (auto simp: Terminal value_for_def PLAYER_0_def PLAYER_1_def)
    moreover have "value_for p (own * opp * rc * payoff node) \<le> own * (opp * rc * value_for p (payoff node))"
      by (simp add: value_for_def)
    ultimately show ?thesis by blast
  next
    case Chance
    let ?V = "\<lambda>edge. projr (?EV (child edge) own opp (rc * probability edge))"
    let ?B = "\<lambda>edge. fin (projr (?BR (child edge) opp (rc * probability edge)))"
    have ev: "?EV node own opp rc = Inr (sum_list (map ?V (children node)))"
    proof -
      have "map (\<lambda>edge. ?EV (child edge) own opp (rc * probability edge)) (children node) =
            map (\<lambda>edge. Inr (?V edge)) (children node)"
        using IH[OF _ less.prems(2)] by (intro map_cong) auto
      then have "sum_results (map (\<lambda>edge. ?EV (child edge) own opp (rc * probability edge)) (children node)) =
            sum_results (map (\<lambda>edge. Inr (?V edge)) (children node))"
        by (rule arg_cong[where f = sum_results])
      moreover have "?EV node own opp rc =
          sum_results (map (\<lambda>edge. ?EV (child edge) own opp (rc * probability edge)) (children node))"
        by (subst ev_recursive.simps) (simp add: Chance)
      ultimately show ?thesis by (simp only: sum_results_Inr)
    qed
    have br: "?BR node opp rc = Inr (Fin (sum_list (map ?B (children node))))"
    proof -
      have "map (\<lambda>edge. ?BR (child edge) opp (rc * probability edge)) (children node) =
            map (\<lambda>edge. Inr (Fin (?B edge))) (children node)"
        using IH[OF _ less.prems(2)] by (intro map_cong) auto
      then have "fold xadd_result (map (\<lambda>edge. ?BR (child edge) opp (rc * probability edge)) (children node)) (Inr (Fin 0)) =
            fold xadd_result (map (\<lambda>edge. Inr (Fin (?B edge))) (children node)) (Inr (Fin 0))"
        by (rule arg_cong[where f = "\<lambda>l. fold xadd_result l (Inr (Fin 0))"])
      moreover have "?BR node opp rc =
          fold xadd_result (map (\<lambda>edge. ?BR (child edge) opp (rc * probability edge)) (children node)) (Inr (Fin 0))"
        by (subst br_recursive.simps) (simp add: Chance)
      ultimately show ?thesis by (simp only: fold_xadd_result add_0)
    qed
    have "sum_list (map (\<lambda>edge. value_for p (?V edge)) (children node)) \<le>
          sum_list (map (\<lambda>edge. own * ?B edge) (children node))"
      using IH[OF _ less.prems(2)] by (intro sum_list_mono) auto
    then have "value_for p (sum_list (map ?V (children node))) \<le>
        own * sum_list (map ?B (children node))"
      by (simp add: sum_list_const_mult value_for_sum_list)
    with ev br show ?thesis by blast
  next
    case Player
    from probs_fits_node[OF fits_self[OF less.prems(1) Player]] obtain ps where
      ps: "probs sigma (info_set_id node) = Inr ps" "length ps = length (children node)"
        "\<forall>x\<in>set ps. 0 \<le> x" "sum_list ps = 1" by blast
    have pl: "player node = PLAYER_0 \<or> player node = PLAYER_1" and ne: "children node \<noteq> []"
      using fits_self[OF less.prems(1) Player] by (auto simp: fits_node_def)
    have pos: "\<And>i. i < length (children node) \<Longrightarrow> 0 \<le> ps ! i" using ps(2,3) by simp
    have co: "\<And>i. i < length (children node) \<Longrightarrow> coeff ps i = Inr (ps ! i)"
      using ps(2) by (simp add: coeff_def)
    have mem: "\<And>i. i < length (children node) \<Longrightarrow> children node ! i \<in> set (children node)"
      by simp
    have ev_unfold: "?EV node own opp rc =
      sum_results (map (\<lambda>i. ev_recursive (child (children node ! i)) sigma
                     (if player node = PLAYER_0 then reach_p0_of p own opp * ps ! i else reach_p0_of p own opp)
                     (if player node = PLAYER_0 then reach_p1_of p own opp else reach_p1_of p own opp * ps ! i)
                     rc None) [0..<length (children node)])"
    proof -
      have "map (\<lambda>i. case coeff ps i of Inl e \<Rightarrow> Inl e
                 | Inr action_prob \<Rightarrow> ev_recursive (child (children node ! i)) sigma
                     (if player node = PLAYER_0 then reach_p0_of p own opp * action_prob else reach_p0_of p own opp)
                     (if player node = PLAYER_0 then reach_p1_of p own opp else reach_p1_of p own opp * action_prob)
                     rc None) [0..<length (children node)] =
            map (\<lambda>i. ev_recursive (child (children node ! i)) sigma
                     (if player node = PLAYER_0 then reach_p0_of p own opp * ps ! i else reach_p0_of p own opp)
                     (if player node = PLAYER_0 then reach_p1_of p own opp else reach_p1_of p own opp * ps ! i)
                     rc None) [0..<length (children node)]"
        using co by (intro map_cong) auto
      then have "sum_results (map (\<lambda>i. case coeff ps i of Inl e \<Rightarrow> Inl e
                 | Inr action_prob \<Rightarrow> ev_recursive (child (children node ! i)) sigma
                     (if player node = PLAYER_0 then reach_p0_of p own opp * action_prob else reach_p0_of p own opp)
                     (if player node = PLAYER_0 then reach_p1_of p own opp else reach_p1_of p own opp * action_prob)
                     rc None) [0..<length (children node)]) =
            sum_results (map (\<lambda>i. ev_recursive (child (children node ! i)) sigma
                     (if player node = PLAYER_0 then reach_p0_of p own opp * ps ! i else reach_p0_of p own opp)
                     (if player node = PLAYER_0 then reach_p1_of p own opp else reach_p1_of p own opp * ps ! i)
                     rc None) [0..<length (children node)])"
        by (rule arg_cong[where f = sum_results])
      moreover have "?EV node own opp rc = sum_results (map (\<lambda>i. case coeff ps i of Inl e \<Rightarrow> Inl e
                 | Inr action_prob \<Rightarrow> ev_recursive (child (children node ! i)) sigma
                     (if player node = PLAYER_0 then reach_p0_of p own opp * action_prob else reach_p0_of p own opp)
                     (if player node = PLAYER_0 then reach_p1_of p own opp else reach_p1_of p own opp * action_prob)
                     rc None) [0..<length (children node)])"
        by (subst ev_recursive.simps) (simp add: Player ps(1))
      ultimately show ?thesis by (rule trans[rotated])
    qed
    show ?thesis
    proof (cases "player node = p")
      case True
      let ?V = "\<lambda>i. projr (?EV (child (children node ! i)) (own * ps ! i) opp rc)"
      let ?B = "\<lambda>edge. fin (projr (?BR (child edge) opp rc))"
      have o: "\<And>i. i < length (children node) \<Longrightarrow> 0 \<le> own * ps ! i"
        using pos less.prems(2) by simp
      have ev: "?EV node own opp rc = Inr (sum_list (map ?V [0..<length (children node)]))"
      proof -
        have "map (\<lambda>i. ev_recursive (child (children node ! i)) sigma
                     (if player node = PLAYER_0 then reach_p0_of p own opp * ps ! i else reach_p0_of p own opp)
                     (if player node = PLAYER_0 then reach_p1_of p own opp else reach_p1_of p own opp * ps ! i)
                     rc None) [0..<length (children node)] =
              map (\<lambda>i. Inr (?V i)) [0..<length (children node)]"
        proof (intro map_cong refl)
          fix i assume "i \<in> set [0..<length (children node)]"
          then have i: "i < length (children node)" by simp
          show "ev_recursive (child (children node ! i)) sigma
                     (if player node = PLAYER_0 then reach_p0_of p own opp * ps ! i else reach_p0_of p own opp)
                     (if player node = PLAYER_0 then reach_p1_of p own opp else reach_p1_of p own opp * ps ! i)
                     rc None = Inr (?V i)"
            unfolding reach_own_node[OF True p, THEN conjunct1] reach_own_node[OF True p, THEN conjunct2]
            using IH[OF mem[OF i] o[OF i]] by simp
        qed
        then show ?thesis unfolding ev_unfold by (simp only: sum_results_Inr)
      qed
      obtain m where m: "?BR node opp rc = Inr (Fin m)" "\<forall>edge\<in>set (children node). ?B edge \<le> m"
      proof -
        have eq: "map (\<lambda>edge. ?BR (child edge) opp rc) (children node) =
              map (\<lambda>edge. Inr (Fin (?B edge))) (children node)"
          using IH[OF _ less.prems(2)] by (intro map_cong) auto
        from fold_xmax_result_NegInf[OF ne, of ?B] obtain m where m':
          "fold xmax_result (map (\<lambda>edge. Inr (Fin (?B edge))) (children node)) (Inr NegInf) = Inr (Fin m)"
          "\<forall>edge\<in>set (children node). ?B edge \<le> m" by blast
        moreover have "?BR node opp rc =
            fold xmax_result (map (\<lambda>edge. ?BR (child edge) opp rc) (children node)) (Inr NegInf)"
          using True by (subst br_recursive.simps) (simp add: Player)
        ultimately have "?BR node opp rc = Inr (Fin m)"
          by (simp only: eq)
        then show ?thesis using that m'(2) by blast
      qed
      have "sum_list (map (\<lambda>i. value_for p (?V i)) [0..<length ps]) \<le> own * m"
      proof (rule weighted_sum_le_max[where b = "\<lambda>i. ?B (children node ! i)"])
        show "\<forall>i<length ps. 0 \<le> ps ! i" using pos ps(2) by simp
        show "sum_list ps = 1" by fact
        show "0 \<le> own" by fact
        show "\<forall>i<length ps. value_for p (?V i) \<le> own * ps ! i * ?B (children node ! i)"
          using IH[OF mem o] ps(2) by simp
        show "\<forall>i<length ps. ?B (children node ! i) \<le> m" using m(2) mem ps(2) by simp
      qed
      then have "value_for p (sum_list (map ?V [0..<length (children node)])) \<le> own * m"
        by (simp add: value_for_sum_list ps(2))
      with ev m(1) show ?thesis by blast
    next
      case False
      let ?V = "\<lambda>i. projr (?EV (child (children node ! i)) own (opp * ps ! i) rc)"
      let ?B = "\<lambda>i. fin (projr (?BR (child (children node ! i)) (opp * ps ! i) rc))"
      have ev: "?EV node own opp rc = Inr (sum_list (map ?V [0..<length (children node)]))"
      proof -
        have "map (\<lambda>i. ev_recursive (child (children node ! i)) sigma
                     (if player node = PLAYER_0 then reach_p0_of p own opp * ps ! i else reach_p0_of p own opp)
                     (if player node = PLAYER_0 then reach_p1_of p own opp else reach_p1_of p own opp * ps ! i)
                     rc None) [0..<length (children node)] =
              map (\<lambda>i. Inr (?V i)) [0..<length (children node)]"
        proof (intro map_cong refl)
          fix i assume "i \<in> set [0..<length (children node)]"
          then have i: "i < length (children node)" by simp
          show "ev_recursive (child (children node ! i)) sigma
                     (if player node = PLAYER_0 then reach_p0_of p own opp * ps ! i else reach_p0_of p own opp)
                     (if player node = PLAYER_0 then reach_p1_of p own opp else reach_p1_of p own opp * ps ! i)
                     rc None = Inr (?V i)"
            unfolding reach_opp_node[OF False p pl, THEN conjunct1] reach_opp_node[OF False p pl, THEN conjunct2]
            using IH[OF mem[OF i] less.prems(2)] by simp
        qed
        then show ?thesis unfolding ev_unfold by (simp only: sum_results_Inr)
      qed
      have br: "?BR node opp rc = Inr (Fin (sum_list (map ?B [0..<length (children node)])))"
      proof -
        have "map (\<lambda>i. case coeff ps i of Inl e \<Rightarrow> Inl e
                 | Inr pr \<Rightarrow> br_recursive (child (children node ! i)) sigma p (opp * pr) rc)
                [0..<length (children node)] =
              map (\<lambda>i. Inr (Fin (?B i))) [0..<length (children node)]"
          using IH[OF mem less.prems(2)] co by (intro map_cong) auto
        then have "fold xadd_result (map (\<lambda>i. case coeff ps i of Inl e \<Rightarrow> Inl e
                 | Inr pr \<Rightarrow> br_recursive (child (children node ! i)) sigma p (opp * pr) rc)
                [0..<length (children node)]) (Inr (Fin 0)) =
              fold xadd_result (map (\<lambda>i. Inr (Fin (?B i))) [0..<length (children node)]) (Inr (Fin 0))"
          by (rule arg_cong[where f = "\<lambda>l. fold xadd_result l (Inr (Fin 0))"])
        moreover have "?BR node opp rc = fold xadd_result (map (\<lambda>i. case coeff ps i of Inl e \<Rightarrow> Inl e
                 | Inr pr \<Rightarrow> br_recursive (child (children node ! i)) sigma p (opp * pr) rc)
                [0..<length (children node)]) (Inr (Fin 0))"
          using False by (subst br_recursive.simps) (simp add: Player ps(1))
        ultimately show ?thesis by (simp only: fold_xadd_result add_0)
      qed
      have "sum_list (map (\<lambda>i. value_for p (?V i)) [0..<length (children node)]) \<le>
            sum_list (map (\<lambda>i. own * ?B i) [0..<length (children node)])"
        using IH[OF mem less.prems(2)] by (intro sum_list_mono) auto
      then have "value_for p (sum_list (map ?V [0..<length (children node)])) \<le>
          own * sum_list (map ?B [0..<length (children node)])"
        by (simp add: sum_list_const_mult value_for_sum_list)
      with ev br show ?thesis by blast
    qed
  qed
qed

lemma kuhn_strategy_fits:
  assumes "from_logits w (build (get_info_sets build_tree)) = Inr s" "length w = 24"
  shows "fits s build_tree"
proof -
  have td: "total_dim (build (get_info_sets build_tree)) = 24"
    by (simp add: total_dim_def build_fields block_sizes_def kuhn_info_sets)
  from from_logits_ok[of w "get_info_sets build_tree"] assms td
  have l: "\<And>iid. m_logits s iid =
      map_option (block w (build (get_info_sets build_tree))) (m_id_to_idx (build (get_info_sets build_tree)) iid)"
    by auto
  have len: "\<And>i. i < 12 \<Longrightarrow> length (block w (build (get_info_sets build_tree)) i) = 2"
  proof -
    fix i :: nat assume i: "i < 12"
    have "\<forall>is\<in>set (get_info_sets build_tree). length (is_legal_actions is) = 2"
      by (simp add: kuhn_info_sets)
    moreover have "get_info_sets build_tree ! i \<in> set (get_info_sets build_tree)"
      using i by (intro nth_mem) (simp add: kuhn_info_sets)
    ultimately show "length (block w (build (get_info_sets build_tree)) i) = 2"
      by (simp add: block_def info_set_def build_fields(1))
  qed
  have n12: "length (get_info_sets build_tree) = 12" by (simp add: kuhn_info_sets)
  have ids: "\<And>iid i. m_id_to_idx (build (get_info_sets build_tree)) iid = Some i \<Longrightarrow> i < 12"
    using id_to_idx_range[of "get_info_sets build_tree"] unfolding n12 by blast
  have idx: "m_id_to_idx (build (get_info_sets build_tree)) iid \<noteq> None"
    if "iid \<in> set (map is_id (get_info_sets build_tree))" for iid
  proof -
    from that obtain i where "i < length (get_info_sets build_tree)" "is_id (get_info_sets build_tree ! i) = iid"
      by (auto simp: in_set_conv_nth)
    then have "iid \<in> fst ` set (rev (map (\<lambda>i. (is_id (get_info_sets build_tree ! i), i))
        [0..<length (get_info_sets build_tree)]))"
      by (force simp: image_iff)
    then show ?thesis
      unfolding build_fields(2) by (simp only: map_of_eq_None_iff not_not)
  qed
  have two: "\<exists>l. m_logits s iid = Some l \<and> length l = 2"
    if "iid \<in> set (map is_id (get_info_sets build_tree))" for iid
    using idx[OF that] ids[of iid] len by (auto simp: l)
  have ids_eq: "set (map is_id (get_info_sets build_tree)) =
      {''P0:J:'', ''P0:J:cb'', ''P0:K:'', ''P0:K:cb'', ''P0:Q:'', ''P0:Q:cb'',
       ''P1:J:b'', ''P1:J:c'', ''P1:K:b'', ''P1:K:c'', ''P1:Q:b'', ''P1:Q:c''}"
    by (simp add: kuhn_info_sets)
  have "list_all (\<lambda>n. info_set_id n \<in>
        {''P0:J:'', ''P0:J:cb'', ''P0:K:'', ''P0:K:cb'', ''P0:Q:'', ''P0:Q:cb'',
         ''P1:J:b'', ''P1:J:c'', ''P1:K:b'', ''P1:K:c'', ''P1:Q:b'', ''P1:Q:c''} \<and>
      length (children n) = 2 \<and> (player n = 0 \<or> player n = 1)) (player_nodes build_tree)"
    unfolding player_nodes_def build_tree_explicit kuhn_deal_tree_def
    by (simp add: traverse_tree_GameNode make_info_set_id_def card_name_def)
  then have shape: "list_all (\<lambda>n. info_set_id n \<in> set (map is_id (get_info_sets build_tree)) \<and>
      length (children n) = 2 \<and> (player n = 0 \<or> player n = 1)) (player_nodes build_tree)"
    unfolding ids_eq .
  have "fits_node s n" if "info_set_id n \<in> set (map is_id (get_info_sets build_tree))"
    "length (children n) = 2" "player n = 0 \<or> player n = 1" for n
    using two[OF that(1)] that(2,3) by (auto simp: fits_node_def PLAYER_0_def PLAYER_1_def)
  with shape show ?thesis
    unfolding fits_def list_all_iff by blast
qed

text \<open>
  C7. For a strategy that fits the tree and for \<open>p\<close> either player, both traversals
  return a value, the best-response value is finite, and it is at least the expected
  value to \<open>p\<close> (hence at least that value minus 1e-9). \<open>value_for p\<close> of the result of
  \<open>compute_ev\<close> is that result for player 0 and its negation for player 1.
\<close>

theorem best_response_at_least_ev:
  assumes "fits sigma root_node" and "p = PLAYER_0 \<or> p = PLAYER_1"
  shows "\<exists>ev br. compute_ev root_node sigma = Inr ev \<and>
           best_response_value root_node sigma p = Inr (Fin br) \<and>
           value_for p ev \<le> br \<and> value_for p ev - 1 / 10 ^ 9 \<le> br"
proof -
  from br_ge_ev_induct[OF assms(2) assms(1), of 1 1 1]
  obtain v b where "ev_recursive root_node sigma 1 1 1 None = Inr v"
    "br_recursive root_node sigma p 1 1 = Inr (Fin b)" "value_for p v \<le> b"
    by (auto simp: reach_p0_of_def reach_p1_of_def)
  then show ?thesis by (auto simp: compute_ev_def best_response_value_def)
qed

theorem best_response_at_least_ev_witness:
  "\<exists>s ev br. from_logits (replicate 24 0) (build (get_info_sets build_tree)) = Inr s \<and>
     compute_ev build_tree s = Inr ev \<and>
     best_response_value build_tree s PLAYER_1 = Inr (Fin br) \<and>
     value_for PLAYER_1 ev \<le> br \<and> value_for PLAYER_1 ev - 1 / 10 ^ 9 \<le> br"
proof -
  have "total_dim (build (get_info_sets build_tree)) = 24"
    by (simp add: total_dim_def build_fields block_sizes_def kuhn_info_sets)
  with from_logits_ok[of "replicate 24 0" "get_info_sets build_tree"]
  obtain s where s: "from_logits (replicate 24 0) (build (get_info_sets build_tree)) = Inr s"
    by auto
  from best_response_at_least_ev[OF kuhn_strategy_fits[OF s], of PLAYER_1] s
  show ?thesis by auto
qed


lemma override_illegal_child:
  "override_illegal I a node \<Longrightarrow> edge \<in> set (children node) \<Longrightarrow> override_illegal I a (child edge)"
  using traverse_tree_child[of edge node]
  by (auto simp: override_illegal_def player_nodes_def list_all_iff)

lemma override_illegal_self:
  "override_illegal I a node \<Longrightarrow> type node = Player \<Longrightarrow> info_set_id node = I \<Longrightarrow>
   a \<notin> set (legal_actions node) \<and> length (legal_actions node) = length (children node)"
  using traverse_tree_self[of node] by (auto simp: override_illegal_def player_nodes_def list_all_iff)

lemma index_of_None: "a \<notin> set xs \<Longrightarrow> index_of a xs = None"
  by (induction xs) auto

lemma override_probs_illegal:
  "a \<notin> set legal \<Longrightarrow> override_probs legal a = replicate (length legal) 0"
  by (simp add: override_probs_def index_of_None)

lemma traverse_tree_trans:
  "n \<in> set (traverse_tree root_node) \<Longrightarrow> set (traverse_tree n) \<subseteq> set (traverse_tree root_node)"
proof (induction root_node rule: measure_induct_rule[of size])
  case (less root_node)
  from less.prems have "n = root_node \<or>
      (\<exists>edge\<in>set (children root_node). n \<in> set (traverse_tree (child edge)))"
    by (subst (asm) traverse_tree.simps) auto
  then show ?case
  proof
    assume "n = root_node"
    then show ?thesis by simp
  next
    assume "\<exists>edge\<in>set (children root_node). n \<in> set (traverse_tree (child edge))"
    then obtain edge where e: "edge \<in> set (children root_node)"
      "n \<in> set (traverse_tree (child edge))" by blast
    from less.IH[OF size_child[OF e(1)] e(2)] traverse_tree_child[OF e(1)]
    show ?thesis by blast
  qed
qed

lemma fits_sub:
  "fits sigma root_node \<Longrightarrow> n \<in> set (traverse_tree root_node) \<Longrightarrow> fits sigma n"
  using traverse_tree_trans[of n root_node]
  by (auto simp: fits_def player_nodes_def list_all_iff)

lemma override_illegal_sub:
  "override_illegal I a root_node \<Longrightarrow> n \<in> set (traverse_tree root_node) \<Longrightarrow>
   override_illegal I a n"
  using traverse_tree_trans[of n root_node]
  by (auto simp: override_illegal_def player_nodes_def list_all_iff)

text \<open>
  With an override action that is not legal at \<open>I\<close>, the traversal returns the reach
  product times the reference value under the pruned behaviour.
\<close>

lemma ev_override_node_value:
  "fits sigma node \<Longrightarrow> override_illegal I a node \<Longrightarrow>
   ev_recursive node sigma r0 r1 rc (Some (I, a)) =
     Inr (r0 * r1 * rc * node_value (pruned_behaviour I sigma) node)"
proof (induction node arbitrary: r0 r1 rc rule: measure_induct_rule[of size])
  case (less node)
  let ?EV = "\<lambda>n r0 r1 rc. ev_recursive n sigma r0 r1 rc (Some (I, a))"
  let ?NV = "node_value (pruned_behaviour I sigma)"
  have IH: "?EV (child edge) r0 r1 rc = Inr (r0 * r1 * rc * ?NV (child edge))"
    if "edge \<in> set (children node)" for edge r0 r1 rc
    by (rule less.IH[OF size_child[OF that] fits_child[OF less.prems(1) that]
          override_illegal_child[OF less.prems(2) that]])
  show ?case
  proof (cases "type node")
    case Terminal
    then show ?thesis by (subst ev_recursive.simps, subst node_value.simps) simp
  next
    case Chance
    have "map (\<lambda>edge. ?EV (child edge) r0 r1 (rc * probability edge)) (children node) =
          map (\<lambda>edge. Inr (r0 * r1 * rc * (probability edge * ?NV (child edge)))) (children node)"
      by (intro map_cong refl) (simp add: IH)
    then have "sum_results (map (\<lambda>edge. ?EV (child edge) r0 r1 (rc * probability edge))
        (children node)) =
        Inr (sum_list (map (\<lambda>edge. r0 * r1 * rc * (probability edge * ?NV (child edge)))
          (children node)))"
      by (simp only: sum_results_Inr)
    also have "\<dots> = Inr (r0 * r1 * rc * ?NV node)"
      by (subst (2) node_value.simps) (simp add: Chance sum_list_const_mult)
    finally show ?thesis by (subst ev_recursive.simps) (simp add: Chance)
  next
    case Player
    have step: "sum_results (map (\<lambda>i. case coeff ap i of Inl e \<Rightarrow> Inl e
          | Inr action_prob \<Rightarrow> ev_recursive (child (children node ! i)) sigma
              (if player node = PLAYER_0 then r0 * action_prob else r0)
              (if player node = PLAYER_0 then r1 else r1 * action_prob) rc (Some (I, a)))
          [0..<length (children node)]) =
        Inr (r0 * r1 * rc *
          (\<Sum>i\<leftarrow>[0..<length (children node)]. ap ! i * ?NV (child (children node ! i))))"
      if ap: "length ap = length (children node)" for ap
    proof -
      have "map (\<lambda>i. case coeff ap i of Inl e \<Rightarrow> Inl e
          | Inr action_prob \<Rightarrow> ev_recursive (child (children node ! i)) sigma
              (if player node = PLAYER_0 then r0 * action_prob else r0)
              (if player node = PLAYER_0 then r1 else r1 * action_prob) rc (Some (I, a)))
          [0..<length (children node)] =
          map (\<lambda>i. Inr (r0 * r1 * rc * (ap ! i * ?NV (child (children node ! i)))))
            [0..<length (children node)]"
      proof (intro map_cong refl)
        fix i assume "i \<in> set [0..<length (children node)]"
        then have i: "i < length (children node)" by simp
        show "(case coeff ap i of Inl e \<Rightarrow> Inl e
          | Inr action_prob \<Rightarrow> ev_recursive (child (children node ! i)) sigma
              (if player node = PLAYER_0 then r0 * action_prob else r0)
              (if player node = PLAYER_0 then r1 else r1 * action_prob) rc (Some (I, a))) =
          Inr (r0 * r1 * rc * (ap ! i * ?NV (child (children node ! i))))"
          using i ap by (simp add: coeff_def IH[OF nth_mem[OF i]])
      qed
      then have "sum_results (map (\<lambda>i. case coeff ap i of Inl e \<Rightarrow> Inl e
          | Inr action_prob \<Rightarrow> ev_recursive (child (children node ! i)) sigma
              (if player node = PLAYER_0 then r0 * action_prob else r0)
              (if player node = PLAYER_0 then r1 else r1 * action_prob) rc (Some (I, a)))
          [0..<length (children node)]) =
          Inr (sum_list (map (\<lambda>i. r0 * r1 * rc * (ap ! i * ?NV (child (children node ! i))))
            [0..<length (children node)]))"
        by (simp only: sum_results_Inr)
      then show ?thesis by (simp only: sum_list_const_mult)
    qed
    have nv: "?NV node = (\<Sum>i\<leftarrow>[0..<length (children node)].
        pruned_behaviour I sigma node ! i * ?NV (child (children node ! i)))"
      by (subst node_value.simps) (simp add: Player)
    show ?thesis
    proof (cases "info_set_id node = I")
      case True
      from override_illegal_self[OF less.prems(2) Player True]
      have op: "override_probs (legal_actions node) a = replicate (length (children node)) 0"
        by (simp add: override_probs_illegal)
      have pb: "pruned_behaviour I sigma node = replicate (length (children node)) 0"
        using True by (simp add: pruned_behaviour_def)
      show ?thesis
        using step[of "replicate (length (children node)) 0"] True op
        unfolding nv pb by (subst ev_recursive.simps) (simp add: Player)
    next
      case False
      from probs_fits_node[OF fits_self[OF less.prems(1) Player]] obtain ps where
        ps: "probs sigma (info_set_id node) = Inr ps" "length ps = length (children node)" by blast
      have pb: "pruned_behaviour I sigma node = ps"
        using False ps(1) by (simp add: pruned_behaviour_def)
      show ?thesis
        using step[OF ps(2)] False
        unfolding nv pb by (subst ev_recursive.simps) (simp add: Player ps(1))
    qed
  qed
qed

lemmas node_value_GameNode =
  node_value.simps[of beh "GameNode t pl i la ch pay po h c0 c1 pc" for beh t pl i la ch pay po h c0 c1 pc]

lemma node_value_pruned_node:
  assumes "type n = Player" "info_set_id n = I"
  shows "node_value (pruned_behaviour I sigma) n = 0"
proof -
  have "map (\<lambda>i. replicate (length (children n)) 0 ! i *
           node_value (pruned_behaviour I sigma) (child (children n ! i))) [0..<length (children n)] =
        map (\<lambda>i. 0 :: real) [0..<length (children n)]"
    by (intro map_cong refl) simp
  then have "(\<Sum>i\<leftarrow>[0..<length (children n)]. replicate (length (children n)) 0 ! i *
           node_value (pruned_behaviour I sigma) (child (children n ! i))) = 0"
    by (simp only: sum_list_0)
  then show ?thesis
    using assms by (subst node_value.simps) (simp add: pruned_behaviour_def)
qed

lemma block_replicate_0:
  assumes "i < length (m_info_sets index)" "sum_list (block_sizes (m_info_sets index)) \<le> n"
  shows "block (replicate n 0) index i = replicate (length (is_legal_actions (info_set index i))) 0"
proof -
  from info_set_start_sum[of index i] assms(1)
  have st: "info_set_start index i = sum_list (take i (block_sizes (m_info_sets index)))" by auto
  from block_in_range[of i "block_sizes (m_info_sets index)"] assms
  have "info_set_start index i + length (is_legal_actions (info_set index i)) \<le> n"
    by (simp add: st block_sizes_def info_set_def)
  then show ?thesis by (intro nth_equalityI) (simp_all add: block_def)
qed

text \<open>
  C10. For a strategy that fits the tree and an override action that is not legal at
  information set \<open>I\<close>, \<open>compute_ev_with_override\<close> raises no error and returns the
  expected value, computed by backward induction, of the behaviour in which every node
  of \<open>I\<close> gives probability 0 to each of its actions; and at every node of \<open>I\<close> in the
  tree the traversal returns 0, whatever the reaches.
\<close>

theorem override_with_illegal_action:
  assumes "fits sigma root_node" and "override_illegal I a root_node"
  shows "compute_ev_with_override root_node sigma I a =
           Inr (node_value (pruned_behaviour I sigma) root_node) \<and>
         list_all (\<lambda>n. info_set_id n = I \<longrightarrow>
                     ev_recursive n sigma r0 r1 rc (Some (I, a)) = Inr 0)
           (player_nodes root_node)"
proof -
  have "compute_ev_with_override root_node sigma I a =
      Inr (node_value (pruned_behaviour I sigma) root_node)"
    using ev_override_node_value[OF assms, of 1 1 1] by (simp add: compute_ev_with_override_def)
  moreover have "ev_recursive n sigma r0 r1 rc (Some (I, a)) = Inr 0"
    if "n \<in> set (player_nodes root_node)" "info_set_id n = I" for n
  proof -
    from that(1) have n: "n \<in> set (traverse_tree root_node)" "type n = Player"
      by (auto simp: player_nodes_def)
    from ev_override_node_value[OF fits_sub[OF assms(1) n(1)] override_illegal_sub[OF assms(2) n(1)]]
      node_value_pruned_node[OF n(2) that(2)]
    show ?thesis by simp
  qed
  ultimately show ?thesis by (simp add: list_all_iff)
qed

text \<open>
  The instance with the Kuhn tree, the uniform strategy and the override of \<open>P0:J:\<close> by
  \<open>Call\<close>, which is not legal there: the two deals that give player 0 the jack
  contribute nothing, the other four give 9/8, -7/8, 9/8 and 9/8, each with probability
  1/6.
\<close>

theorem override_with_illegal_action_witness:
  "\<exists>s. from_logits (replicate 24 0) (build (get_info_sets build_tree)) = Inr s \<and>
     compute_ev_with_override build_tree s ''P0:J:'' Call = Inr (5 / 12) \<and>
     list_all (\<lambda>n. info_set_id n = ''P0:J:'' \<longrightarrow>
                 ev_recursive n s 1 1 (1 / 6) (Some (''P0:J:'', Call)) = Inr 0)
       (player_nodes build_tree)"
proof -
  have td: "total_dim (build (get_info_sets build_tree)) = 24"
    by (simp add: total_dim_def build_fields block_sizes_def kuhn_info_sets)
  with from_logits_ok[of "replicate 24 0" "get_info_sets build_tree"]
  obtain s where s: "from_logits (replicate 24 0) (build (get_info_sets build_tree)) = Inr s"
    and l: "\<And>iid. m_logits s iid = map_option (block (replicate 24 0) (build (get_info_sets build_tree)))
        (m_id_to_idx (build (get_info_sets build_tree)) iid)"
    by auto
  have ill: "override_illegal ''P0:J:'' Call build_tree"
    unfolding override_illegal_def player_nodes_def build_tree_explicit kuhn_deal_tree_def
    by (simp add: traverse_tree_GameNode make_info_set_id_def card_name_def)
  have half: "stable_softmax [0, 0] = Inr [1 / 2, 1 / 2]"
    by (simp add: stable_softmax_def exp_double_0)
  have blk: "block (replicate 24 0) (build (get_info_sets build_tree)) i = [0, 0]" if "i < 12" for i
  proof -
    have "get_info_sets build_tree ! i \<in> set (get_info_sets build_tree)"
      using that by (intro nth_mem) (simp add: kuhn_info_sets)
    then have two: "length (is_legal_actions (get_info_sets build_tree ! i)) = 2"
      by (auto simp add: kuhn_info_sets)
    have "i < length (m_info_sets (build (get_info_sets build_tree)))"
      using that by (simp add: build_fields(1) kuhn_info_sets)
    moreover have "sum_list (block_sizes (m_info_sets (build (get_info_sets build_tree)))) \<le> 24"
      using td by (simp add: total_dim_def build_fields)
    ultimately have "block (replicate 24 0) (build (get_info_sets build_tree)) i =
        replicate (length (is_legal_actions (info_set (build (get_info_sets build_tree)) i))) 0"
      by (rule block_replicate_0)
    then show ?thesis using two by (simp add: info_set_def build_fields(1) eval_nat_numeral)
  qed
  have pr: "probs s iid = Inr [1 / 2, 1 / 2]"
    if "iid \<in> {''P0:J:cb'', ''P0:K:'', ''P0:K:cb'', ''P0:Q:'', ''P0:Q:cb'',
         ''P1:J:b'', ''P1:J:c'', ''P1:K:b'', ''P1:K:c'', ''P1:Q:b'', ''P1:Q:c''}" for iid
  proof -
    from that obtain i where "m_id_to_idx (build (get_info_sets build_tree)) iid = Some i" "i < 12"
      unfolding build_fields(2) kuhn_info_sets by (auto simp add: eval_nat_numeral)
    then show ?thesis by (simp add: probs_def l blk half)
  qed
  have prs: "probs s ''P0:J:cb'' = Inr [1 / 2, 1 / 2]" "probs s ''P0:K:'' = Inr [1 / 2, 1 / 2]"
    "probs s ''P0:K:cb'' = Inr [1 / 2, 1 / 2]" "probs s ''P0:Q:'' = Inr [1 / 2, 1 / 2]"
    "probs s ''P0:Q:cb'' = Inr [1 / 2, 1 / 2]" "probs s ''P1:J:b'' = Inr [1 / 2, 1 / 2]"
    "probs s ''P1:J:c'' = Inr [1 / 2, 1 / 2]" "probs s ''P1:K:b'' = Inr [1 / 2, 1 / 2]"
    "probs s ''P1:K:c'' = Inr [1 / 2, 1 / 2]" "probs s ''P1:Q:b'' = Inr [1 / 2, 1 / 2]"
    "probs s ''P1:Q:c'' = Inr [1 / 2, 1 / 2]"
    by (rule pr, simp)+
  have d: "node_value (pruned_behaviour ''P0:J:'' s) (kuhn_deal_tree p0c p1c) =
     (if p0c = 0 then 0 else
        1 / 2 * (1 / 2 * showdown_payoff p0c p1c 2 +
                 1 / 2 * (1 / 2 * showdown_payoff p0c p1c 4 + 1 / 2 * (- 1))) +
        1 / 2 * (1 / 2 * showdown_payoff p0c p1c 4 + 1 / 2 * 1))"
    if "p0c \<in> {0, 1, 2}" "p1c \<in> {0, 1, 2}" for p0c p1c
    using that unfolding kuhn_deal_tree_def
    by (auto simp add: node_value_GameNode pruned_behaviour_def prs make_info_set_id_def
        card_name_def)
  have nv: "node_value (pruned_behaviour ''P0:J:'' s) build_tree = 5 / 12"
    unfolding build_tree_explicit
    by (simp add: node_value_GameNode d showdown_payoff_def)
  have fit: "fits s build_tree" by (rule kuhn_strategy_fits[OF s]) simp
  note th = override_with_illegal_action[OF fit ill, of 1 1 "1 / 6", unfolded nv]
  show ?thesis
    by (intro exI[of _ s] conjI s conjunct1[OF th] conjunct2[OF th])
qed

section \<open>The continuation schedule\<close>

lemma schedule_inv_init: "1 / 100 < t \<Longrightarrow> schedule_inv t ([1 / 100], 5 / 100)"
  by (simp add: schedule_inv_def strictly_increasing_def at_least_doubling_def)

lemma sorted_wrt_less_snoc:
  fixes b :: real
  assumes "sorted_wrt (<) s" "s \<noteq> []" "last s < b"
  shows "sorted_wrt (<) (s @ [b])"
proof -
  have "\<forall>x\<in>set s. x \<le> last s"
    using assms(1,2)
  proof (induction s)
    case Nil
    then show ?case by simp
  next
    case (Cons a s)
    then show ?case by (cases s) (auto intro: less_imp_le)
  qed
  with assms show ?thesis by (auto simp: sorted_wrt_append)
qed

lemma schedule_inv_step:
  assumes "schedule_inv t (s, b)" "b < t"
  shows "schedule_inv t (s @ [b], b * 2)"
proof -
  from assms(1) have ne: "s \<noteq> []" and h: "hd s = 1 / 100" and inc: "sorted_wrt (<) s"
    and dbl: "successively (\<lambda>x y. 2 * x \<le> y) s" and pos: "0 < last s" and lb: "2 * last s \<le> b"
    by (simp_all add: schedule_inv_def strictly_increasing_def at_least_doubling_def)
  from pos lb have lt: "last s < b" by simp
  have "sorted_wrt (<) (s @ [b])" using sorted_wrt_less_snoc[OF inc ne lt] .
  moreover have "successively (\<lambda>x y. 2 * x \<le> y) (s @ [b])"
    using dbl ne lb by (simp add: successively_append_iff)
  moreover have "0 < b" using pos lt by simp
  ultimately show ?thesis using ne h assms(2)
    by (simp add: schedule_inv_def strictly_increasing_def at_least_doubling_def)
qed

lemma schedule_loop_terminates:
  assumes "schedule_inv t st"
  shows "\<exists>st'. while_option (\<lambda>(schedule, beta). beta < t)
                  (\<lambda>(schedule, beta). (schedule @ [beta], beta * 2)) st = Some st'"
proof (rule measure_while_option_Some[where P = "schedule_inv t"
        and f = "\<lambda>(schedule, beta). nat \<lceil>t / beta\<rceil>"])
  show "schedule_inv t st" by fact
next
  fix st :: "real list \<times> real"
  assume a: "schedule_inv t st" and b: "case st of (schedule, beta) \<Rightarrow> beta < t"
  obtain s b where st: "st = (s, b)" by (cases st)
  from a st have pos: "0 < b" by (auto simp: schedule_inv_def)
  from b st have lt: "b < t" by simp
  have "1 < t / b" using pos lt by simp
  then have c2: "2 \<le> \<lceil>t / b\<rceil>" by linarith
  have "t / (b * 2) = (t / b) / 2" by simp
  also have "\<dots> \<le> of_int \<lceil>t / b\<rceil> / 2" by (simp add: divide_right_mono)
  finally have "\<lceil>t / (b * 2)\<rceil> \<le> \<lceil>of_int \<lceil>t / b\<rceil> / (2::real)\<rceil>" by (rule ceiling_mono)
  also have "\<dots> < \<lceil>t / b\<rceil>" using c2 by linarith
  finally have "nat \<lceil>t / (b * 2)\<rceil> < nat \<lceil>t / b\<rceil>" using c2 by linarith
  with schedule_inv_step[OF a[unfolded st] lt] st
  show "schedule_inv t (case st of (schedule, beta) \<Rightarrow> (schedule @ [beta], beta * 2)) \<and>
        (case (case st of (schedule, beta) \<Rightarrow> (schedule @ [beta], beta * 2)) of (schedule, beta) \<Rightarrow> nat \<lceil>t / beta\<rceil>)
          < (case st of (schedule, beta) \<Rightarrow> nat \<lceil>t / beta\<rceil>)"
    by simp
qed

lemma schedule_loop_inv:
  assumes "while_option (\<lambda>(schedule, beta). beta < t)
             (\<lambda>(schedule, beta). (schedule @ [beta], beta * 2)) st = Some st'"
    and "schedule_inv t st"
  shows "schedule_inv t st'"
proof (rule while_option_rule[where P = "schedule_inv t", OF _ assms(1) assms(2)])
  fix s assume "schedule_inv t s" "case s of (schedule, beta) \<Rightarrow> beta < t"
  then show "schedule_inv t (case s of (schedule, beta) \<Rightarrow> (schedule @ [beta], beta * 2))"
    by (cases s) (simp add: schedule_inv_step)
qed

text \<open>
  C3 (amended). For every target above 0.01 the schedule loop ends, and the schedule is
  strictly increasing, begins at 0.01 and ends exactly at the target; every element
  except the appended target is at least double its predecessor.
\<close>

theorem make_beta_schedule_shape:
  assumes "1 / 100 < target_beta"
  shows "\<exists>s. make_beta_schedule target_beta = Some s \<and>
             strictly_increasing s \<and> hd s = 1 / 100 \<and> last s = target_beta \<and>
             at_least_doubling (butlast s)"
proof -
  from schedule_loop_terminates[OF schedule_inv_init[OF assms]]
  obtain st' where w: "while_option (\<lambda>(schedule, beta). beta < target_beta)
       (\<lambda>(schedule, beta). (schedule @ [beta], beta * 2)) ([1 / 100], 5 / 100) = Some st'"
    by blast
  obtain s b where st': "st' = (s, b)" by (cases st')
  from schedule_loop_inv[OF w schedule_inv_init[OF assms]] st'
  have inv: "schedule_inv target_beta (s, b)" by simp
  then have ne: "s \<noteq> []" and h: "hd s = 1 / 100" and inc: "sorted_wrt (<) s"
    and dbl: "at_least_doubling s" and lt: "last s < target_beta"
    by (simp_all add: schedule_inv_def strictly_increasing_def)
  have "make_beta_schedule target_beta = Some (s @ [target_beta])"
    using w st' by (simp add: make_beta_schedule_def)
  moreover have "strictly_increasing (s @ [target_beta])"
    unfolding strictly_increasing_def using sorted_wrt_less_snoc[OF inc ne lt] .
  ultimately show ?thesis using ne h dbl by simp
qed

theorem make_beta_schedule_shape_witness: "1 / 100 < (10::real) \<and> (\<exists>s. make_beta_schedule 10 = Some s \<and>
             strictly_increasing s \<and> hd s = 1 / 100 \<and> last s = 10 \<and>
             at_least_doubling (butlast s))"
  using make_beta_schedule_shape[of 10] by simp


lemma strictly_increasing_pair: "strictly_increasing [a, b] = (a < b)"
  by (simp add: strictly_increasing_def)

text \<open>
  C3 as stated fails twice: the appended target need not double its predecessor
  (target 0.06 gives 0.01, 0.05, 0.06), and a target of at most 0.01 is appended after
  0.01 all the same (target 0.005 gives 0.01, 0.005).
\<close>

theorem make_beta_schedule_counterexample:
  "(0::real) < 3 / 50 \<and> make_beta_schedule (3 / 50) = Some [1 / 100, 1 / 20, 3 / 50] \<and>
   \<not> at_least_doubling [1 / 100, 1 / 20, 3 / 50] \<and>
   (0::real) < 1 / 200 \<and> make_beta_schedule (1 / 200) = Some [1 / 100, 1 / 200] \<and>
   \<not> strictly_increasing [1 / 100, 1 / 200]"
  by (simp add: make_beta_schedule_def while_option_unfold at_least_doubling_def
      strictly_increasing_pair)

section \<open>The Newton solver\<close>

lemma dot1 [simp]: "dot [a] [b] = a * b"
  by (simp add: dot_def)

lemma norm2_1 [simp]: "norm2 [a] = \<bar>a\<bar>"
  by (simp add: norm2_def squaredNorm_def)

lemmas la_defs = la1_def lu1_def madd_def msmul_def identity_def unit_vec_def smul_def vadd_def
  vsub_def mat_tmat_def mat_tvec_def mat_vec_def squaredNorm_def merit_function_def
  compute_jacobian_def armijo_backtrack_def add_iteration_def empty_trace_def

text \<open>One unfolding of the loop, branch by branch.\<close>

lemma newton_loop_done:
  "\<not> int iter < max_iters cfg \<Longrightarrow>
   newton_loop la cfg F iter x r rn lam tr =
     \<lparr>res_x = x,
      res_trace = tr\<lparr>success := False, termination_reason := ''Max iterations reached''\<rparr>,
      res_converged = False, res_iterations = max_iters cfg, res_final_residual = rn\<rparr>"
  by (subst newton_loop.simps) simp

lemma newton_loop_converged:
  "int iter < max_iters cfg \<Longrightarrow> rn < tol cfg \<Longrightarrow>
   newton_loop la cfg F iter x r rn lam tr =
     \<lparr>res_x = x,
      res_trace = (add_iteration tr \<lparr>iteration = iter, residual_norm = rn, step_norm = 0, alpha = 1,
                     lambda = lam, jacobian_cond = 0, converged = True, status = ''Converged''\<rparr>)
        \<lparr>success := True, termination_reason := ''Converged: residual below tolerance''\<rparr>,
      res_converged = True, res_iterations = int iter, res_final_residual = rn\<rparr>"
  by (subst newton_loop.simps) (simp add: Let_def)

lemma newton_loop_singular:
  "int iter < max_iters cfg \<Longrightarrow> \<not> rn < tol cfg \<Longrightarrow>
   regularized_solve la cfg (length x)
     (mat_tmat (compute_jacobian F x (fd_step cfg) (central_diff cfg)))
     (mat_tvec (compute_jacobian F x (fd_step cfg) (central_diff cfg)) r) 10 lam = (None, lam') \<Longrightarrow>
   iterations (res_trace (newton_loop la cfg F iter x r rn lam tr)) =
     iterations tr @ [\<lparr>iteration = iter, residual_norm = rn, step_norm = 0, alpha = 1,
        lambda = lam, jacobian_cond = jacobi_cond la (compute_jacobian F x (fd_step cfg) (central_diff cfg)),
        converged = False, status = ''Failed: Jacobian singular''\<rparr>]"
  by (subst newton_loop.simps) (simp add: Let_def add_iteration_def)

lemma newton_loop_search:
  "int iter < max_iters cfg \<Longrightarrow> \<not> rn < tol cfg \<Longrightarrow> use_line_search cfg \<Longrightarrow>
   regularized_solve la cfg (length x)
     (mat_tmat (compute_jacobian F x (fd_step cfg) (central_diff cfg)))
     (mat_tvec (compute_jacobian F x (fd_step cfg) (central_diff cfg)) r) 10 lam = (Some d, lam') \<Longrightarrow>
   a = ls_alpha (armijo_backtrack F x d (compute_jacobian F x (fd_step cfg) (central_diff cfg))
         (armijo_c cfg) (armijo_rho cfg) 20) \<Longrightarrow>
   newton_loop la cfg F iter x r rn lam tr =
     newton_loop la cfg F (Suc iter) (vadd x (smul a d)) (F (vadd x (smul a d)))
       (norm2 (F (vadd x (smul a d))))
       (if norm2 (F (vadd x (smul a d))) < rn
        then max (lambda_init cfg) (lam' / lambda_factor cfg)
        else min (lambda_max cfg) (lam' * lambda_factor cfg))
       (add_iteration tr \<lparr>iteration = iter, residual_norm = rn, step_norm = norm2 d, alpha = a,
          lambda = lam, jacobian_cond = jacobi_cond la (compute_jacobian F x (fd_step cfg) (central_diff cfg)),
          converged = False, status = ''Iteration complete''\<rparr>)"
  by (subst newton_loop.simps) (simp add: Let_def)

lemma newton_loop_plain:
  "int iter < max_iters cfg \<Longrightarrow> \<not> rn < tol cfg \<Longrightarrow> \<not> use_line_search cfg \<Longrightarrow>
   regularized_solve la cfg (length x)
     (mat_tmat (compute_jacobian F x (fd_step cfg) (central_diff cfg)))
     (mat_tvec (compute_jacobian F x (fd_step cfg) (central_diff cfg)) r) 10 lam = (Some d, lam') \<Longrightarrow>
   newton_loop la cfg F iter x r rn lam tr =
     newton_loop la cfg F (Suc iter) (vadd x d) (F (vadd x d)) (norm2 (F (vadd x d))) lam'
       (add_iteration tr \<lparr>iteration = iter, residual_norm = rn, step_norm = norm2 d, alpha = 1,
          lambda = lam, jacobian_cond = jacobi_cond la (compute_jacobian F x (fd_step cfg) (central_diff cfg)),
          converged = False, status = ''Iteration complete''\<rparr>)"
  by (subst newton_loop.simps) (simp add: Let_def)


lemma regularized_solve_sized:
  "lu_sized la \<Longrightarrow> regularized_solve la cfg n JtJ Jtr k lam = (Some d, lam') \<Longrightarrow>
   length d = length Jtr"
  by (induction k arbitrary: lam) (auto simp: lu_sized_def smul_def Let_def split: option.splits)

lemma length_compute_jacobian: "length (compute_jacobian F x h central) = length x"
  by (simp add: compute_jacobian_def Let_def)

lemma vadd_zero_step: "length x \<le> length d \<Longrightarrow> vadd x (smul 0 d) = x"
  by (rule nth_equalityI) (simp_all add: vadd_def smul_def)

lemma backtrack_result:
  "0 \<le> a \<Longrightarrow> 0 \<le> rho \<Longrightarrow>
   ls_alpha (backtrack F x d c rho phi0 dphi0 k a e) = a * rho ^ k \<or>
   (0 \<le> ls_alpha (backtrack F x d c rho phi0 dphi0 k a e) \<and>
    0.5 * squaredNorm (F (vadd x (smul (ls_alpha (backtrack F x d c rho phi0 dphi0 k a e)) d)))
      \<le> phi0 + c * ls_alpha (backtrack F x d c rho phi0 dphi0 k a e) * dphi0)"
proof (induction k arbitrary: a e)
  case 0
  show ?case by simp
next
  case (Suc k)
  show ?case
  proof (cases "0.5 * squaredNorm (F (vadd x (smul a d))) \<le> phi0 + c * a * dphi0")
    case True
    then show ?thesis using Suc.prems by (simp add: Let_def)
  next
    case False
    have "0 \<le> a * rho" using Suc.prems by simp
    from Suc.IH[OF this Suc.prems(2), of "e + 1"] False show ?thesis
      by (simp add: Let_def mult.assoc)
  qed
qed

lemma armijo_no_increase:
  assumes "0 \<le> c" "0 \<le> rho" "length x \<le> length d"
    and "a = ls_alpha (armijo_backtrack F x d J c rho 20)" "a \<noteq> rho ^ 20"
  shows "norm2 (F (vadd x (smul a d))) \<le> norm2 (F x)"
proof (cases "dot (F x) (mat_vec (length (F x)) J d) \<ge> 0")
  case True
  then have "a = 0" using assms(4) by (simp add: armijo_backtrack_def Let_def)
  then show ?thesis using vadd_zero_step[OF assms(3)] by simp
next
  case False
  let ?dphi = "dot (F x) (mat_vec (length (F x)) J d)"
  let ?phi0 = "0.5 * squaredNorm (F x)"
  have a: "a = ls_alpha (backtrack F x d c rho ?phi0 ?dphi 20 1 1)"
    using assms(4) False by (simp add: armijo_backtrack_def Let_def)
  from backtrack_result[of 1 rho F x d c ?phi0 ?dphi 20 1] assms(2,5) a
  have "0 \<le> a" and le: "0.5 * squaredNorm (F (vadd x (smul a d))) \<le> ?phi0 + c * a * ?dphi"
    by auto
  have "c * a * ?dphi \<le> 0"
    using False assms(1) \<open>0 \<le> a\<close> by (simp add: mult_nonneg_nonpos)
  with le have "squaredNorm (F (vadd x (smul a d))) \<le> squaredNorm (F x)" by simp
  then show ?thesis by (simp add: norm2_def)
qed

lemma trace_inv_add:
  "trace_inv rho tr rn \<Longrightarrow> residual_norm s = rn \<Longrightarrow>
   successively (armijo_ok rho) (iterations (add_iteration tr s))"
  by (auto simp: trace_inv_def add_iteration_def successively_append_iff armijo_ok_def)

lemma trace_inv_step:
  "trace_inv rho tr rn \<Longrightarrow> residual_norm s = rn \<Longrightarrow> (alpha s \<noteq> rho ^ 20 \<longrightarrow> rn' \<le> rn) \<Longrightarrow>
   trace_inv rho (add_iteration tr s) rn'"
  using trace_inv_add[of rho tr rn s]
  by (auto simp: trace_inv_def add_iteration_def)

lemma newton_loop_armijo_ok:
  assumes la: "lu_sized la" and cfg: "use_line_search cfg" "0 \<le> armijo_c cfg" "0 \<le> armijo_rho cfg"
  shows "trace_inv (armijo_rho cfg) tr rn \<Longrightarrow> rn = norm2 (F x) \<Longrightarrow>
    successively (armijo_ok (armijo_rho cfg))
      (iterations (res_trace (newton_loop la cfg F iter x r rn lam tr)))"
proof (induction "nat (max_iters cfg - int iter)" arbitrary: iter x r rn lam tr)
  case 0
  then have "\<not> int iter < max_iters cfg" by simp
  then show ?case using "0.prems"(1) by (simp add: newton_loop_done trace_inv_def)
next
  case (Suc k)
  then have it: "int iter < max_iters cfg" and k: "k = nat (max_iters cfg - int (Suc iter))" by auto
  let ?J = "compute_jacobian F x (fd_step cfg) (central_diff cfg)"
  show ?case
  proof (cases "rn < tol cfg")
    case True
    show ?thesis
      using trace_inv_add[OF Suc.prems(1)]
      by (simp add: newton_loop_converged[OF it True] add_iteration_def)
  next
    case False
    obtain sol lam' where rs: "regularized_solve la cfg (length x) (mat_tmat ?J) (mat_tvec ?J r) 10 lam
        = (sol, lam')" by (cases "regularized_solve la cfg (length x) (mat_tmat ?J) (mat_tvec ?J r) 10 lam")
    show ?thesis
    proof (cases sol)
      case None
      have "successively (armijo_ok (armijo_rho cfg)) (iterations (add_iteration tr
          \<lparr>iteration = iter, residual_norm = rn, step_norm = 0, alpha = 1, lambda = lam,
           jacobian_cond = jacobi_cond la ?J, converged = False,
           status = ''Failed: Jacobian singular''\<rparr>))"
        by (rule trace_inv_add[OF Suc.prems(1)]) simp
      then show ?thesis
        unfolding newton_loop_singular[OF it False rs[unfolded None]]
        by (simp add: add_iteration_def)
    next
      case (Some d)
      define a where "a = ls_alpha (armijo_backtrack F x d ?J (armijo_c cfg) (armijo_rho cfg) 20)"
      have ld: "length x \<le> length d"
        using regularized_solve_sized[OF la rs[unfolded Some]]
        by (simp add: mat_tvec_def length_compute_jacobian)
      have dec: "a \<noteq> armijo_rho cfg ^ 20 \<longrightarrow> norm2 (F (vadd x (smul a d))) \<le> rn"
        using armijo_no_increase[OF cfg(2,3) ld a_def] Suc.prems(2) by simp
      let ?s = "\<lparr>iteration = iter, residual_norm = rn, step_norm = norm2 d, alpha = a,
          lambda = lam, jacobian_cond = jacobi_cond la ?J,
          converged = False, status = ''Iteration complete''\<rparr>"
      have inv: "trace_inv (armijo_rho cfg) (add_iteration tr ?s) (norm2 (F (vadd x (smul a d))))"
        by (rule trace_inv_step[OF Suc.prems(1)]) (use dec in simp_all)
      show ?thesis
        unfolding newton_loop_search[OF it False cfg(1) rs[unfolded Some] a_def]
        by (rule Suc.hyps(1)[where x = "vadd x (smul a d)", OF k inv refl])
    qed
  qed
qed

text \<open>
  C2 (amended). With the line search on, Armijo constants \<open>c \<ge> 0\<close> and \<open>rho \<ge> 0\<close> and a
  factorisation that returns steps of the size of its right-hand side: whenever the
  \<open>alpha\<close> recorded for an iteration is not \<open>rho ^ 20\<close> (the step length left after twenty
  failed backtracking steps), the residual norm recorded for the next iteration is not
  larger.
\<close>

theorem residual_nonincreasing_after_accepted_step:
  assumes "lu_sized la" and "use_line_search cfg" and "0 \<le> armijo_c cfg" and "0 \<le> armijo_rho cfg"
    and "solve la cfg F x0 = Inr res" and "Suc k < length (iterations (res_trace res))"
    and "alpha (iterations (res_trace res) ! k) \<noteq> armijo_rho cfg ^ 20"
  shows "residual_norm (iterations (res_trace res) ! Suc k)
           \<le> residual_norm (iterations (res_trace res) ! k)"
proof -
  from assms(5) have res: "res = newton_loop la cfg F 0 x0 (F x0) (norm2 (F x0)) (lambda_init cfg) empty_trace"
    by (auto simp: solve_def Let_def split: if_splits)
  have inv: "trace_inv (armijo_rho cfg) empty_trace (norm2 (F x0))"
    by (simp add: trace_inv_def empty_trace_def)
  have "successively (armijo_ok (armijo_rho cfg)) (iterations (res_trace res))"
    unfolding res
    by (rule newton_loop_armijo_ok[where F = F and x = x0, OF assms(1-4) inv refl])
  from successively_nth[OF this assms(6)] assms(7) show ?thesis
    by (simp add: armijo_ok_def)
qed

subsection \<open>The linear residual\<close>






text \<open>Diagonal matrices: products, the regularised matrix, and the solution of a system.\<close>

lemma length_diag_mat [simp]: "length (diag_mat a) = length a"
  by (simp add: diag_mat_def)

lemma nth_diag_mat:
  "j < length a \<Longrightarrow> diag_mat a ! j = (replicate (length a) 0)[j := a ! j]"
  by (simp add: diag_mat_def)













lemma sum_list_upt_const: "(\<Sum>i\<leftarrow>[0..<n]. (k :: real)) = real n * k"
  by (simp add: sum_list_triv)








lemma linear_eval_ok: "evaluates_linear 0 M c (linear_eval c)"
  by (simp add: evaluates_linear_def linear_eval_def)



lemma linear_run:
  assumes "1 / 1000002000001 < t" and "t \<le> 1 / 1000001"
  shows "solve la1 (default_config\<lparr>tol := t\<rparr>) (linear_residual [0]) [1] = Inr
     \<lparr>res_x = [1 / 1000002000001],
      res_trace =
        \<lparr>iterations =
           [\<lparr>iteration = 0, residual_norm = 1, step_norm = 1000000 / 1000001, alpha = 1,
              lambda = 1 / 1000000, jacobian_cond = 1, converged = False,
              status = ''Iteration complete''\<rparr>,
            \<lparr>iteration = 1, residual_norm = 1 / 1000001, step_norm = 1000000 / 1000002000001,
              alpha = 1, lambda = 1 / 1000000, jacobian_cond = 1, converged = False,
              status = ''Iteration complete''\<rparr>,
            \<lparr>iteration = 2, residual_norm = 1 / 1000002000001, step_norm = 0, alpha = 1,
              lambda = 1 / 1000000, jacobian_cond = 0, converged = True, status = ''Converged''\<rparr>],
         success = True, total_iterations = 3, final_residual = 1 / 1000002000001,
         termination_reason = ''Converged: residual below tolerance''\<rparr>,
      res_converged = True, res_iterations = 2, res_final_residual = 1 / 1000002000001\<rparr>"
proof -
  have t: "\<not> 1 < t" "\<not> 1 < t * 1000001" "1 < t * 1000002000001"
    using assms by (simp_all add: field_simps)
  show ?thesis
    unfolding solve_def
    apply (simp add: Let_def linear_residual_def componentwise_def linear_eval_def default_config_def)
    apply (subst newton_loop.simps)
    apply (simp add: Let_def linear_residual_def componentwise_def linear_eval_def la_defs eval_nat_numeral t)
    apply (subst newton_loop.simps)
    apply (simp add: Let_def linear_residual_def componentwise_def linear_eval_def la_defs eval_nat_numeral t field_simps)
    apply (subst newton_loop.simps)
    apply (simp add: Let_def linear_residual_def componentwise_def linear_eval_def la_defs eval_nat_numeral t field_simps)
    done
qed

lemma default_config_tol: "default_config\<lparr>tol := 1 / 10 ^ 10\<rparr> = default_config"
  by (simp add: default_config_def)


lemma newton_loop_trace_prefix:
  "\<exists>rest. iterations (res_trace (newton_loop la cfg F iter x r rn lam tr)) = iterations tr @ rest"
proof (induction "nat (max_iters cfg - int iter)" arbitrary: iter x r rn lam tr)
  case 0
  then have "\<not> int iter < max_iters cfg" by simp
  then show ?case by (simp add: newton_loop_done)
next
  case (Suc k)
  then have it: "int iter < max_iters cfg" and k: "k = nat (max_iters cfg - int (Suc iter))" by auto
  let ?J = "compute_jacobian F x (fd_step cfg) (central_diff cfg)"
  show ?case
  proof (cases "rn < tol cfg")
    case True
    show ?thesis by (simp add: newton_loop_converged[OF it True] add_iteration_def)
  next
    case False
    obtain sol lam' where rs: "regularized_solve la cfg (length x) (mat_tmat ?J) (mat_tvec ?J r) 10 lam
        = (sol, lam')" by (cases "regularized_solve la cfg (length x) (mat_tmat ?J) (mat_tvec ?J r) 10 lam")
    show ?thesis
    proof (cases sol)
      case None
      show ?thesis unfolding newton_loop_singular[OF it False rs[unfolded None]] by simp
    next
      case (Some d)
      show ?thesis
      proof (cases "use_line_search cfg")
        case True
        define a where "a = ls_alpha (armijo_backtrack F x d ?J (armijo_c cfg) (armijo_rho cfg) 20)"
        let ?s = "\<lparr>iteration = iter, residual_norm = rn, step_norm = norm2 d, alpha = a,
          lambda = lam, jacobian_cond = jacobi_cond la ?J,
          converged = False, status = ''Iteration complete''\<rparr>"
        have "\<exists>rest. iterations (res_trace (newton_loop la cfg F iter x r rn lam tr)) =
            iterations (add_iteration tr ?s) @ rest"
          unfolding newton_loop_search[OF it False True rs[unfolded Some] a_def]
          by (rule Suc.hyps(1)[OF k])
        then show ?thesis by (auto simp add: add_iteration_def)
      next
        case False2: False
        let ?s = "\<lparr>iteration = iter, residual_norm = rn, step_norm = norm2 d, alpha = 1,
          lambda = lam, jacobian_cond = jacobi_cond la ?J,
          converged = False, status = ''Iteration complete''\<rparr>"
        have "\<exists>rest. iterations (res_trace (newton_loop la cfg F iter x r rn lam tr)) =
            iterations (add_iteration tr ?s) @ rest"
          unfolding newton_loop_plain[OF it False False2 rs[unfolded Some]]
          by (rule Suc.hyps(1)[OF k])
        then show ?thesis by (auto simp add: add_iteration_def)
      qed
    qed
  qed
qed

lemma newton_loop_next_entry:
  assumes it: "int iter < max_iters cfg"
  shows "\<exists>s rest. iterations (res_trace (newton_loop la cfg F iter x r rn lam tr)) =
           iterations tr @ s # rest \<and> residual_norm s = rn"
proof -
  let ?J = "compute_jacobian F x (fd_step cfg) (central_diff cfg)"
  show ?thesis
  proof (cases "rn < tol cfg")
    case True
    show ?thesis by (simp add: newton_loop_converged[OF it True] add_iteration_def)
  next
    case False
    obtain sol lam' where rs: "regularized_solve la cfg (length x) (mat_tmat ?J) (mat_tvec ?J r) 10 lam
        = (sol, lam')" by (cases "regularized_solve la cfg (length x) (mat_tmat ?J) (mat_tvec ?J r) 10 lam")
    show ?thesis
    proof (cases sol)
      case None
      show ?thesis unfolding newton_loop_singular[OF it False rs[unfolded None]] by simp
    next
      case (Some d)
      show ?thesis
      proof (cases "use_line_search cfg")
        case True
        define a where "a = ls_alpha (armijo_backtrack F x d ?J (armijo_c cfg) (armijo_rho cfg) 20)"
        let ?s = "\<lparr>iteration = iter, residual_norm = rn, step_norm = norm2 d, alpha = a,
          lambda = lam, jacobian_cond = jacobi_cond la ?J,
          converged = False, status = ''Iteration complete''\<rparr>"
        have "\<exists>rest. iterations (res_trace (newton_loop la cfg F iter x r rn lam tr)) =
            iterations (add_iteration tr ?s) @ rest"
          unfolding newton_loop_search[OF it False True rs[unfolded Some] a_def]
          by (rule newton_loop_trace_prefix)
        then show ?thesis by (auto simp add: add_iteration_def)
      next
        case False2: False
        let ?s = "\<lparr>iteration = iter, residual_norm = rn, step_norm = norm2 d, alpha = 1,
          lambda = lam, jacobian_cond = jacobi_cond la ?J,
          converged = False, status = ''Iteration complete''\<rparr>"
        have "\<exists>rest. iterations (res_trace (newton_loop la cfg F iter x r rn lam tr)) =
            iterations (add_iteration tr ?s) @ rest"
          unfolding newton_loop_plain[OF it False False2 rs[unfolded Some]]
          by (rule newton_loop_trace_prefix)
        then show ?thesis by (auto simp add: add_iteration_def)
      qed
    qed
  qed
qed

lemma steep_jacobian: "compute_jacobian steep [0] (1 / 10 ^ 7) True = [[1]]"
  by (simp add: la_defs steep_def eval_nat_numeral)

lemma steep_direction:
  "regularized_solve la1 default_config 1 (mat_tmat [[1]]) (mat_tvec [[1]] [1]) 10 (1 / 10 ^ 6) =
     (Some [- (1000000 / 1000001)], 1 / 10 ^ 6)"
  by (simp add: la_defs default_config_def eval_nat_numeral)

lemma steep_line_search:
  "ls_alpha (armijo_backtrack steep [0] [- (1000000 / 1000001)] [[1]] (1 / 10 ^ 4) (1 / 2) 20) =
     1 / 2 ^ 20"
  by (simp add: la_defs steep_def eval_nat_numeral)


lemma steep_first_step:
  "\<exists>lam' tr'. iterations tr' =
       [\<lparr>iteration = 0, residual_norm = 1, step_norm = norm2 [- (1000000 / 1000001)],
         alpha = 1 / 2 ^ 20, lambda = 1 / 10 ^ 6, jacobian_cond = 1, converged = False,
         status = ''Iteration complete''\<rparr>] \<and>
     newton_loop la1 default_config steep 0 [0] [1] 1 (1 / 10 ^ 6) empty_trace =
     newton_loop la1 default_config steep (Suc 0)
       (vadd [0] (smul (1 / 2 ^ 20) [- (1000000 / 1000001)]))
       (steep (vadd [0] (smul (1 / 2 ^ 20) [- (1000000 / 1000001)])))
       (norm2 (steep (vadd [0] (smul (1 / 2 ^ 20) [- (1000000 / 1000001)])))) lam' tr'"
proof -
  have c: "fd_step default_config = 1 / 10 ^ 7" "central_diff default_config = True"
    "armijo_c default_config = 1 / 10 ^ 4" "armijo_rho default_config = 1 / 2"
    by (simp_all add: default_config_def)
  have t: "int 0 < max_iters default_config" "\<not> 1 < tol default_config"
    "use_line_search default_config"
    by (simp_all add: default_config_def)
  have rs: "regularized_solve la1 default_config (length [0::real])
      (mat_tmat (compute_jacobian steep [0] (fd_step default_config) (central_diff default_config)))
      (mat_tvec (compute_jacobian steep [0] (fd_step default_config) (central_diff default_config)) [1])
      10 (1 / 10 ^ 6) = (Some [- (1000000 / 1000001)], 1 / 10 ^ 6)"
    unfolding c steep_jacobian using steep_direction by simp
  have arm: "1 / 2 ^ 20 = ls_alpha (armijo_backtrack steep [0] [- (1000000 / 1000001)]
      (compute_jacobian steep [0] (fd_step default_config) (central_diff default_config))
      (armijo_c default_config) (armijo_rho default_config) 20)"
    unfolding c steep_jacobian steep_line_search ..
  have j: "jacobi_cond la1 J = 1" for J by (simp add: la1_def)
  have it: "iterations (add_iteration empty_trace
       \<lparr>iteration = 0, residual_norm = 1, step_norm = norm2 [- (1000000 / 1000001)],
         alpha = 1 / 2 ^ 20, lambda = 1 / 10 ^ 6, jacobian_cond = 1, converged = False,
         status = ''Iteration complete''\<rparr>) =
       [\<lparr>iteration = 0, residual_norm = 1, step_norm = norm2 [- (1000000 / 1000001)],
         alpha = 1 / 2 ^ 20, lambda = 1 / 10 ^ 6, jacobian_cond = 1, converged = False,
         status = ''Iteration complete''\<rparr>]"
    unfolding add_iteration_def empty_trace_def by simp
  show ?thesis
    using newton_loop_search[OF t(1) t(2) t(3) rs arm, unfolded j, of empty_trace] it by blast
qed

lemma steep_second_residual:
  "1 < norm2 (steep (vadd [0] (smul (1 / 2 ^ 20) [- (1000000 / 1000001)])))"
  by (simp add: steep_def vadd_def smul_def eval_nat_numeral)

text \<open>
  C2 as stated fails for \<open>F(x) = 1 + x + 2^21 x^2\<close> from \<open>x0 = 0\<close> with the default
  configuration: the Newton direction is -1000000/1000001, the Armijo test fails at all 20
  step sizes 1, 1/2, ..., 1/2^19, the solver takes the step of size 1/2^20 all the same,
  and the trace records the residual norm 1 and then a residual norm above 1.
\<close>

theorem steep_residual_increases:
  "take 1 (trace_residuals (solve la1 default_config steep [0])) = [1] \<and>
   1 < trace_residuals (solve la1 default_config steep [0]) ! 1 \<and>
   \<not> sorted_wrt (\<ge>) (trace_residuals (solve la1 default_config steep [0]))"
proof -
  have s: "solve la1 default_config steep [0] =
      Inr (newton_loop la1 default_config steep 0 [0] [1] 1 (1 / 10 ^ 6) empty_trace)"
    by (simp add: solve_def steep_def default_config_def)
  from steep_first_step obtain lam' tr' where
    tr': "iterations tr' =
       [\<lparr>iteration = 0, residual_norm = 1, step_norm = norm2 [- (1000000 / 1000001)],
         alpha = 1 / 2 ^ 20, lambda = 1 / 10 ^ 6, jacobian_cond = 1, converged = False,
         status = ''Iteration complete''\<rparr>]"
    and st: "newton_loop la1 default_config steep 0 [0] [1] 1 (1 / 10 ^ 6) empty_trace =
     newton_loop la1 default_config steep (Suc 0)
       (vadd [0] (smul (1 / 2 ^ 20) [- (1000000 / 1000001)]))
       (steep (vadd [0] (smul (1 / 2 ^ 20) [- (1000000 / 1000001)])))
       (norm2 (steep (vadd [0] (smul (1 / 2 ^ 20) [- (1000000 / 1000001)])))) lam' tr'"
    by blast
  have "int (Suc 0) < max_iters default_config" by (simp add: default_config_def)
  from newton_loop_next_entry[OF this, of la1 steep
      "vadd [0] (smul (1 / 2 ^ 20) [- (1000000 / 1000001)])"
      "steep (vadd [0] (smul (1 / 2 ^ 20) [- (1000000 / 1000001)]))"
      "norm2 (steep (vadd [0] (smul (1 / 2 ^ 20) [- (1000000 / 1000001)])))" lam' tr']
  obtain s1 rest where
    its: "iterations (res_trace (newton_loop la1 default_config steep 0 [0] [1] 1 (1 / 10 ^ 6)
        empty_trace)) = iterations tr' @ s1 # rest"
    and r1: "residual_norm s1 = norm2 (steep (vadd [0] (smul (1 / 2 ^ 20) [- (1000000 / 1000001)])))"
    unfolding st by blast
  have tr: "trace_residuals (solve la1 default_config steep [0]) =
      1 # residual_norm s1 # map residual_norm rest"
    unfolding s trace_residuals_def sum.case its tr' by simp
  have "1 < residual_norm s1" unfolding r1 by (rule steep_second_residual)
  then show ?thesis unfolding tr by simp
qed

text \<open>
  C2 (witness of the amended statement): the run on \<open>F(x) = x\<close> from \<open>x0 = 1\<close>, whose first
  step is accepted at step size 1.
\<close>

theorem residual_nonincreasing_after_accepted_step_witness:
  "alpha (iterations (res_trace (projr (solve la1 default_config (linear_residual [0]) [1]))) ! 0)
     \<noteq> (1 / 2) ^ 20 \<and>
   residual_norm (iterations (res_trace (projr (solve la1 default_config (linear_residual [0]) [1])))
     ! Suc 0) \<le>
   residual_norm (iterations (res_trace (projr (solve la1 default_config (linear_residual [0]) [1])))
     ! 0)"
proof -
  have "1 / 1000002000001 < (1 / 10 ^ 10 :: real)" and "(1 / 10 ^ 10 :: real) \<le> 1 / 1000001"
    by simp_all
  note run = linear_run[OF this, unfolded default_config_tol]
  have sized: "lu_sized la1"
    by (auto simp add: lu_sized_def la1_def lu1_def split: list.splits if_splits)
  have cfg: "use_line_search default_config" "0 \<le> armijo_c default_config"
    "0 \<le> armijo_rho default_config" "armijo_rho default_config = 1 / 2"
    by (simp_all add: default_config_def)
  have a: "alpha (iterations (res_trace (projr (solve la1 default_config (linear_residual [0]) [1])))
      ! 0) \<noteq> armijo_rho default_config ^ 20"
    unfolding run cfg(4) by (simp add: power_divide)
  have l: "Suc 0 < length (iterations (res_trace (projr
      (solve la1 default_config (linear_residual [0]) [1]))))"
    unfolding run by simp
  have r: "solve la1 default_config (linear_residual [0]) [1] =
      Inr (projr (solve la1 default_config (linear_residual [0]) [1]))"
    unfolding run by simp
  from residual_nonincreasing_after_accepted_step[OF sized cfg(1,2,3) r l a] a
  show ?thesis unfolding cfg(4) by blast
qed

end
